theory Spec2Isabelle
  imports Complex_Main "HOL-Library.AList" "HOL-Library.Sublist"
begin

section \<open>Errors and numbers\<close>

text \<open>
  The exceptions that the modelled functions of \<^verbatim>\<open>ai.py\<close> can raise: a division or
  modulo by zero, \<^verbatim>\<open>math.log2\<close> outside its domain, a subscript on \<^verbatim>\<open>None\<close>, an
  index out of range, and \<open>Uncaught msg\<close> for an exception of the generation call that
  its \<^verbatim>\<open>except\<close> clause does not catch. A raise is the value \<open>Inl e\<close>; a normal
  return is \<open>Inr v\<close>. In \<^verbatim>\<open>orchestrate\<close> every one of them reaches the handler that
  answers with the error response.

  Python's \<^verbatim>\<open>float\<close> is modelled by the real numbers: every arithmetic operation is
  exact, and \<^verbatim>\<open>math.log2\<close> is the real logarithm to base 2.
\<close>

datatype py_error = ZeroDivisionError | ValueError | TypeError | IndexError | Uncaught string

text \<open>
  \<^verbatim>\<open>round(x, ndigits)\<close>: the nearest multiple of \<open>10^-ndigits\<close>, a tie going to the
  even one (Python rounds half to even).
\<close>

definition round_half_even :: "real \<Rightarrow> int" where
  "round_half_even x =
     (let f = \<lfloor>x\<rfloor>; d = x - of_int f
      in if d < 1 / 2 then f
         else if 1 / 2 < d then f + 1
         else if even f then f else f + 1)"

definition round_digits :: "real \<Rightarrow> nat \<Rightarrow> real" where
  "round_digits x ndigits = of_int (round_half_even (x * 10 ^ ndigits)) / 10 ^ ndigits"

section \<open>Entropy of a hash string\<close>

text \<open>
  \<^verbatim>\<open>char_counts[char] = char_counts.get(char, 0) + 1\<close> on a dictionary that keeps its
  keys in insertion order: an association list, updated in place or extended at the end.
\<close>

definition count_char :: "(char \<times> nat) list \<Rightarrow> char \<Rightarrow> (char \<times> nat) list" where
  "count_char char_counts c =
     AList.update c ((case map_of char_counts c of None \<Rightarrow> 0 | Some n \<Rightarrow> n) + 1) char_counts"

definition char_counts_of :: "string \<Rightarrow> (char \<times> nat) list" where
  "char_counts_of hash_string = foldl count_char [] hash_string"

text \<open>
  The second loop of \<^verbatim>\<open>calculate_entropy\<close>, over \<^verbatim>\<open>char_counts.values()\<close>. The division
  raises when the length is zero and \<^verbatim>\<open>math.log2\<close> raises on a non-positive argument;
  both are branches of the loop body.
\<close>

fun entropy_loop :: "nat \<Rightarrow> real \<Rightarrow> nat list \<Rightarrow> py_error + real" where
  "entropy_loop len entropy [] = Inr entropy"
| "entropy_loop len entropy (count # counts) =
     (if len = 0 then Inl ZeroDivisionError
      else let probability = real count / real len
           in if probability \<le> 0 then Inl ValueError
              else entropy_loop len (entropy - probability * log 2 probability) counts)"

definition calculate_entropy :: "string \<Rightarrow> py_error + real" where
  "calculate_entropy hash_string =
     (case entropy_loop (length hash_string) 0 (map snd (char_counts_of hash_string)) of
        Inl e \<Rightarrow> Inl e
      | Inr entropy \<Rightarrow> Inr (round_digits entropy 3))"

text \<open>
  One term of the entropy sum, \<open>p * log2 p\<close> for \<open>p = n / len\<close>; used to state what the
  loop computes.
\<close>

definition plogp :: "nat \<Rightarrow> nat \<Rightarrow> real" where
  "plogp len n = (real n / real len) * log 2 (real n / real len)"

section \<open>Model rotation\<close>

definition OLLAMA_MODELS :: "string list" where
  "OLLAMA_MODELS =
     [''gemma:latest'', ''deepseek-coder:latest'', ''gemma:latest'',
      ''deepseek-coder:latest'', ''gemma:latest'']"

text \<open>
  \<^verbatim>\<open>get_next_model\<close> reads and increments the global \<^verbatim>\<open>ollama_model_index\<close>; the model
  takes the configured list and the counter and returns the model with the new counter.
  \<^verbatim>\<open>index % len(list)\<close> raises on an empty list.
\<close>

definition get_next_model :: "string list \<Rightarrow> nat \<Rightarrow> py_error + (string \<times> nat)" where
  "get_next_model models ollama_model_index =
     (if length models = 0 then Inl ZeroDivisionError
      else Inr (models ! (ollama_model_index mod length models), ollama_model_index + 1))"

text \<open>\<open>k\<close> consecutive calls: the models returned, in order, and the counter afterwards.\<close>

fun next_models :: "string list \<Rightarrow> nat \<Rightarrow> nat \<Rightarrow> py_error + (string list \<times> nat)" where
  "next_models models c 0 = Inr ([], c)"
| "next_models models c (Suc k) =
     (case get_next_model models c of
        Inl e \<Rightarrow> Inl e
      | Inr (m, c') \<Rightarrow>
          (case next_models models c' k of
             Inl e \<Rightarrow> Inl e
           | Inr (ms, c'') \<Rightarrow> Inr (m # ms, c'')))"

section \<open>Strings\<close>

text \<open>
  Python strings are modelled as lists of \<open>char\<close>, a character standing for the code
  point of the same number (so the model covers code points below 256).
  \<^verbatim>\<open>str.isspace\<close> holds there for the code points 9 to 13, 28 to 32, 133 and 160.
\<close>

definition newline :: char where
  "newline = CHR 0x0A"

definition backslash :: char where
  "backslash = CHR 0x5C"

definition isspace :: "char \<Rightarrow> bool" where
  "isspace c = ((of_char c :: nat) \<in> {9, 10, 11, 12, 13, 28, 29, 30, 31, 32, 133, 160})"

definition strip :: "string \<Rightarrow> string" where
  "strip s = rev (dropWhile isspace (rev (dropWhile isspace s)))"

text \<open>\<^verbatim>\<open>s.split(sep)\<close> for a one-character separator: never the empty list.\<close>

fun split_on :: "char \<Rightarrow> string \<Rightarrow> string list" where
  "split_on sep [] = [[]]"
| "split_on sep (c # cs) =
     (if c = sep then [] # split_on sep cs
      else (case split_on sep cs of
              [] \<Rightarrow> [[c]]
            | line # lines \<Rightarrow> (c # line) # lines))"

fun join :: "string \<Rightarrow> string list \<Rightarrow> string" where
  "join sep [] = []"
| "join sep [x] = x"
| "join sep (x # y # ys) = x @ sep @ join sep (y # ys)"

text \<open>
  \<^verbatim>\<open>s.replace(old, new)\<close> for a non-empty \<open>old\<close>: the occurrences are replaced from left
  to right, without overlap.
\<close>

function replace :: "string \<Rightarrow> string \<Rightarrow> string \<Rightarrow> string" where
  "replace old new [] = []"
| "replace old new (c # cs) =
     (if old \<noteq> [] \<and> prefix old (c # cs)
      then new @ replace old new (drop (length old) (c # cs))
      else c # replace old new cs)"
  by pat_completeness auto
termination
  by (relation "measure (\<lambda>(old, new, s). length s)") auto

text \<open>Decimal rendering of a non-negative integer, as \<^verbatim>\<open>str\<close> and an f-string give it.\<close>

definition digit_char :: "nat \<Rightarrow> char" where
  "digit_char d = char_of (48 + d)"

fun str_nat :: "nat \<Rightarrow> string" where
  "str_nat n = (if n < 10 then [digit_char n] else str_nat (n div 10) @ [digit_char (n mod 10)])"

definition str_int :: "int \<Rightarrow> string" where
  "str_int i = (if i < 0 then CHR ''-'' # str_nat (nat (- i)) else str_nat (nat i))"

section \<open>The generation call\<close>

text \<open>
  The HTTP exchange with the generation service is outside the program. Its outcome is
  the text of the \<^verbatim>\<open>"response"\<close> entry of the JSON body
  (\<^verbatim>\<open>json_response.get("response", "")\<close>), or a
  \<^verbatim>\<open>requests.exceptions.RequestException\<close> (connection failure, timeout, a status
  that \<^verbatim>\<open>raise_for_status\<close> rejects) with its message, or any other exception
  raised inside the \<^verbatim>\<open>try\<close> block (a body that is not a JSON object with a
  string under \<^verbatim>\<open>"response"\<close>), which the \<^verbatim>\<open>except\<close> clause lets through.
\<close>

datatype http_outcome = Response string | RequestException string | OtherException string

record reasoning_result =
  r_candidate :: string
  r_model :: string
  success :: bool

definition full_prompt ::
  "string \<Rightarrow> string \<Rightarrow> string \<Rightarrow> string \<Rightarrow> nat \<Rightarrow> string \<Rightarrow> int \<Rightarrow> string" where
  "full_prompt agent_id model prompt context round_num file_type reasoning_depth =
     (let strategy = ''Apply recursive reasoning (depth '' @ str_int reasoning_depth
                     @ '') and fractal code structure.''
      in ''You are an expert coding agent (Agent ID: '' @ agent_id @ '', Model: '' @ model
         @ '').'' @ [newline]
         @ ''You are in round '' @ str_nat (round_num + 1) @ '' of a multi-agent consensus.''
         @ [newline]
         @ ''Your assigned strategy is: '' @ [CHR 0x22] @ strategy @ [CHR 0x22] @ ''.''
         @ [newline]
         @ ''Analyze the user's request and the provided code to generate an improved or new code snippet.''
         @ [newline, newline]
         @ ''USER REQUEST: '' @ [CHR 0x22] @ prompt @ [CHR 0x22] @ [newline, newline]
         @ ''CODE CONTEXT ('' @ file_type @ ''):'' @ [newline]
         @ ''```'' @ [newline] @ context @ [newline] @ ''```'' @ [newline, newline]
         @ ''Provide ONLY the generated code snippet as your response. Do not include explanations, apologies, or markdown formatting.'')"

text \<open>
  \<^verbatim>\<open>perform_fractal_reasoning\<close>, with the service as the function \<open>post\<close> from the model
  name and the prompt to the outcome of the exchange. The \<^verbatim>\<open>except\<close> branch builds
  the placeholder candidate.
\<close>

definition perform_fractal_reasoning ::
  "(string \<Rightarrow> string \<Rightarrow> http_outcome) \<Rightarrow> string \<Rightarrow> string \<Rightarrow> string \<Rightarrow> string \<Rightarrow> nat
     \<Rightarrow> string \<Rightarrow> string \<Rightarrow> int \<Rightarrow> py_error + reasoning_result" where
  "perform_fractal_reasoning post agent_id model prompt context round_num origin file_type
       reasoning_depth =
     (case post model
             (full_prompt agent_id model prompt context round_num file_type reasoning_depth) of
        Response text \<Rightarrow>
          (let code_candidate = strip text;
               final_candidate =
                 ''// Agent: '' @ agent_id @ '' | Model: '' @ model @ '' | Round: ''
                 @ str_nat (round_num + 1) @ [newline]
                 @ ''// Seed: '' @ take 12 origin @ [newline]
                 @ code_candidate
           in Inr \<lparr>r_candidate = final_candidate, r_model = model, success = True\<rparr>)
      | RequestException e \<Rightarrow>
          (let error_msg = ''Ollama connection error for agent '' @ agent_id @ '': '' @ e
           in Inr \<lparr>r_candidate = ''// Agent '' @ agent_id @ '' failed to generate a response.''
                                    @ [newline] @ ''// Error: '' @ error_msg,
                   r_model = model, success = False\<rparr>)
      | OtherException msg \<Rightarrow> Inl (Uncaught msg))"

section \<open>Fragments and the consensus assembler\<close>

record fragment =
  agentId :: string
  origin :: string
  round_num :: nat
  candidate :: string
  entropy :: real
  model :: string

record group =
  candidates :: "fragment list"
  totalEntropy :: real
  agents :: "string set"
  rounds :: "nat set"
  root_candidate :: "fragment option"

record scored_group =
  g_key :: string
  g_score :: real
  g_agentCount :: nat
  g_roundCount :: nat
  g_avgEntropy :: real
  g_rootAgent :: string
  g_rootEntropy :: real
  g_candidate :: string

text \<open>
  The dictionary that \<^verbatim>\<open>assemble_final_answer\<close> returns. The degenerate result has only
  the keys \<^verbatim>\<open>genesis\<close>, \<^verbatim>\<open>selectedCandidate\<close>, \<^verbatim>\<open>score\<close> and \<^verbatim>\<open>allGroups\<close>; an
  absent key is \<open>None\<close>.
\<close>

record consensus =
  genesis :: string
  selectedCandidate :: string
  score :: real
  agentCount :: "nat option"
  roundCount :: "nat option"
  avgEntropy :: "real option"
  rootAgent :: "string option"
  rootEntropy :: "real option"
  allGroups :: "scored_group list"

text \<open>
  The grouping key of a candidate: the lines whose stripped form starts with \<^verbatim>\<open>//\<close>
  are dropped, the rest is joined by newlines, every occurrence of the two characters
  backslash and \<^verbatim>\<open>s\<close> is removed (\<^verbatim>\<open>'\s'\<close> is not an escape sequence of Python, so
  the literal is these two characters), and the result is stripped.
\<close>

definition is_comment_line :: "string \<Rightarrow> bool" where
  "is_comment_line line = prefix ''//'' (strip line)"

definition code_text :: "string \<Rightarrow> string" where
  "code_text cand = join [newline] (filter (\<lambda>line. \<not> is_comment_line line) (split_on newline cand))"

definition grouping_key :: "string \<Rightarrow> string" where
  "grouping_key cand = strip (replace [backslash, CHR ''s''] [] (code_text cand))"

definition new_group :: group where
  "new_group = \<lparr>candidates = [], totalEntropy = 0, agents = {}, rounds = {}, root_candidate = None\<rparr>"

text \<open>
  The body of the first loop. \<^verbatim>\<open>candidate_groups\<close> is a dictionary in insertion order:
  a new key goes to the end, an existing key keeps its place.
\<close>

definition add_fragment :: "(string \<times> group) list \<Rightarrow> fragment \<Rightarrow> (string \<times> group) list" where
  "add_fragment candidate_groups fragment =
     (let key = grouping_key (candidate fragment)
      in if key = [] then candidate_groups
         else
           let group0 = (case map_of candidate_groups key of None \<Rightarrow> new_group | Some g \<Rightarrow> g);
               group1 = group0\<lparr>candidates := candidates group0 @ [fragment],
                               totalEntropy := totalEntropy group0 + entropy fragment,
                               agents := insert (agentId fragment) (agents group0),
                               rounds := insert (round_num fragment) (rounds group0)\<rparr>;
               group2 = (case root_candidate group1 of
                           None \<Rightarrow> group1\<lparr>root_candidate := Some fragment\<rparr>
                         | Some best \<Rightarrow>
                             if entropy best < entropy fragment
                             then group1\<lparr>root_candidate := Some fragment\<rparr>
                             else group1)
           in AList.update key group2 candidate_groups)"

definition group_fragments :: "fragment list \<Rightarrow> (string \<times> group) list" where
  "group_fragments all_fragments = foldl add_fragment [] all_fragments"

text \<open>A \<^verbatim>\<open>for\<close> loop whose body may raise: the first error ends the loop.\<close>

fun for_each :: "('s \<Rightarrow> 'a \<Rightarrow> py_error + 's) \<Rightarrow> 's \<Rightarrow> 'a list \<Rightarrow> py_error + 's" where
  "for_each body st [] = Inr st"
| "for_each body st (x # xs) =
     (case body st x of Inl e \<Rightarrow> Inl e | Inr st' \<Rightarrow> for_each body st' xs)"

text \<open>
  The body of the second loop: a group without candidates is skipped; subscripting a
  \<^verbatim>\<open>root_candidate\<close> that is \<^verbatim>\<open>None\<close> raises.
\<close>

definition score_group :: "scored_group list \<Rightarrow> string \<times> group \<Rightarrow> py_error + scored_group list" where
  "score_group scored_groups kg =
     (let key = fst kg; group = snd kg
      in case candidates group of
           [] \<Rightarrow> Inr scored_groups
         | first # _ \<Rightarrow>
             let agent_count = card (agents group);
                 round_count = card (rounds group);
                 avg_entropy = totalEntropy group / real (length (candidates group));
                 score = real agent_count * 2 + real round_count * 1.5 + avg_entropy * 3
             in case root_candidate group of
                  None \<Rightarrow> Inl TypeError
                | Some best \<Rightarrow>
                    Inr (scored_groups @
                         [\<lparr>g_key = key, g_score = round_digits score 3,
                           g_agentCount = agent_count, g_roundCount = round_count,
                           g_avgEntropy = round_digits avg_entropy 3,
                           g_rootAgent = agentId best, g_rootEntropy = entropy best,
                           g_candidate = candidate first\<rparr>]))"

text \<open>
  \<^verbatim>\<open>scored_groups.sort(key=lambda x: x['score'], reverse=True)\<close> is a stable sort in
  descending order of the score: among equal scores the earlier group stays first.
\<close>

definition sort_by_score :: "scored_group list \<Rightarrow> scored_group list" where
  "sort_by_score scored_groups = sort_key (\<lambda>x. - g_score x) scored_groups"

definition no_candidates_text :: string where
  "no_candidates_text = ''// No valid code candidates were generated by the agents.''"

definition assemble_final_answer :: "fragment list \<Rightarrow> string \<Rightarrow> py_error + consensus" where
  "assemble_final_answer all_fragments genesis_hash =
     (case for_each score_group [] (group_fragments all_fragments) of
        Inl e \<Rightarrow> Inl e
      | Inr scored_groups \<Rightarrow>
          if scored_groups = []
          then Inr \<lparr>genesis = genesis_hash, selectedCandidate = no_candidates_text, score = 0,
                    agentCount = None, roundCount = None, avgEntropy = None,
                    rootAgent = None, rootEntropy = None, allGroups = []\<rparr>
          else (case sort_by_score scored_groups of
                  [] \<Rightarrow> Inl IndexError
                | top_group # rest \<Rightarrow>
                    Inr \<lparr>genesis = genesis_hash, selectedCandidate = g_candidate top_group,
                         score = g_score top_group,
                         agentCount = Some (g_agentCount top_group),
                         roundCount = Some (g_roundCount top_group),
                         avgEntropy = Some (g_avgEntropy top_group),
                         rootAgent = Some (g_rootAgent top_group),
                         rootEntropy = Some (g_rootEntropy top_group),
                         allGroups = top_group # rest\<rparr>))"

subsection \<open>What the grouping loop computes\<close>

text \<open>
  The terms in which the result of the first loop is stated: the key of a fragment, the
  non-empty keys in the order of their first occurrence, the fragments of a key in input
  order, and the first fragment of greatest entropy of a list.
\<close>

definition key_of :: "fragment \<Rightarrow> string" where
  "key_of f = grouping_key (candidate f)"

definition group_keys :: "fragment list \<Rightarrow> string list" where
  "group_keys frs = rev (remdups (rev (filter (\<lambda>k. k \<noteq> []) (map key_of frs))))"

definition members :: "string \<Rightarrow> fragment list \<Rightarrow> fragment list" where
  "members k frs = filter (\<lambda>f. key_of f = k) frs"

fun first_max :: "fragment list \<Rightarrow> fragment option" where
  "first_max [] = None"
| "first_max (f # fs) =
     (case first_max fs of
        None \<Rightarrow> Some f
      | Some b \<Rightarrow> if entropy f < entropy b then Some b else Some f)"

definition group_of :: "string \<Rightarrow> fragment list \<Rightarrow> group" where
  "group_of k frs =
     \<lparr>candidates = members k frs,
      totalEntropy = sum_list (map entropy (members k frs)),
      agents = agentId ` set (members k frs),
      rounds = round_num ` set (members k frs),
      root_candidate = first_max (members k frs)\<rparr>"

text \<open>The entry of the scored list for a key whose group is not empty.\<close>

definition scored_of :: "string \<Rightarrow> fragment list \<Rightarrow> scored_group" where
  "scored_of k frs =
     (let ms = members k frs;
          agent_count = card (agentId ` set ms);
          round_count = card (round_num ` set ms);
          avg_entropy = sum_list (map entropy ms) / real (length ms)
      in \<lparr>g_key = k,
          g_score = round_digits (real agent_count * 2 + real round_count * 1.5 + avg_entropy * 3) 3,
          g_agentCount = agent_count, g_roundCount = round_count,
          g_avgEntropy = round_digits avg_entropy 3,
          g_rootAgent = (case first_max ms of None \<Rightarrow> [] | Some b \<Rightarrow> agentId b),
          g_rootEntropy = (case first_max ms of None \<Rightarrow> 0 | Some b \<Rightarrow> entropy b),
          g_candidate = (case ms of [] \<Rightarrow> [] | f # _ \<Rightarrow> candidate f)\<rparr>)"

definition scored_list :: "fragment list \<Rightarrow> scored_group list" where
  "scored_list frs = map (\<lambda>k. scored_of k frs) (group_keys frs)"

text \<open>
  The scenario of the specification: two agents, one round, both candidates with the
  normalized text \<^verbatim>\<open>x=1\<close>, entropies 3.1 and 3.3.
\<close>

definition scenario_fragments :: "fragment list" where
  "scenario_fragments =
     [\<lparr>agentId = ''agent-0'', origin = ''0a'', round_num = 0,
       candidate = ''// Agent: agent-0 | Model: gemma:latest | Round: 1'' @ [newline]
                   @ ''// Seed: 0a'' @ [newline] @ ''x=1'',
       entropy = 3.1, model = ''gemma:latest''\<rparr>,
      \<lparr>agentId = ''agent-1'', origin = ''1b'', round_num = 0,
       candidate = ''// Agent: agent-1 | Model: deepseek-coder:latest | Round: 1'' @ [newline]
                   @ ''// Seed: 1b'' @ [newline] @ ''x=1'',
       entropy = 3.3, model = ''deepseek-coder:latest''\<rparr>]"

text \<open>A fragment as the \<^verbatim>\<open>except\<close> branch of the generation call leaves it.\<close>

definition failed_fragment :: fragment where
  "failed_fragment =
     \<lparr>agentId = ''agent-0'', origin = ''0a'', round_num = 0,
      candidate = ''// Agent agent-0 failed to generate a response.'' @ [newline]
                  @ ''// Error: Ollama connection error for agent agent-0: timed out'',
      entropy = 3.1, model = ''gemma:latest''\<rparr>"

subsection \<open>Spacing of candidate texts\<close>

text \<open>
  Two texts differ only in interior spacing: they are different, they have the same
  characters apart from whitespace, and the same leading and trailing whitespace.
\<close>

definition differ_only_in_interior_spacing :: "string \<Rightarrow> string \<Rightarrow> bool" where
  "differ_only_in_interior_spacing s t =
     (s \<noteq> t
      \<and> filter (\<lambda>c. \<not> isspace c) s = filter (\<lambda>c. \<not> isspace c) t
      \<and> takeWhile isspace s = takeWhile isspace t
      \<and> takeWhile isspace (rev s) = takeWhile isspace (rev t))"


definition spaced_fragments :: "fragment list" where
  "spaced_fragments =
     [\<lparr>agentId = ''agent-0'', origin = ''0a'', round_num = 0,
       candidate = ''// Agent: agent-0 | Model: gemma:latest | Round: 1'' @ [newline]
                   @ ''// Seed: 0a'' @ [newline] @ ''x = 1'',
       entropy = 3.1, model = ''gemma:latest''\<rparr>,
      \<lparr>agentId = ''agent-1'', origin = ''1b'', round_num = 0,
       candidate = ''// Agent: agent-1 | Model: deepseek-coder:latest | Round: 1'' @ [newline]
                   @ ''// Seed: 1b'' @ [newline] @ ''x=1'',
       entropy = 3.3, model = ''deepseek-coder:latest''\<rparr>]"

section \<open>The orchestration loop\<close>

text \<open>
  What \<^verbatim>\<open>orchestrate\<close> takes from outside the program: the digest function, the text of
  \<^verbatim>\<open>time.time()\<close>, the text of the \<open>i\<close>-th \<^verbatim>\<open>random.random()\<close>, and the outcome of the
  \<open>k\<close>-th exchange of the run with the generation service for a model and a prompt.
\<close>

record env =
  sha256 :: "string \<Rightarrow> string"
  time_str :: string
  random_str :: "nat \<Rightarrow> string"
  requests_post :: "nat \<Rightarrow> string \<Rightarrow> string \<Rightarrow> http_outcome"

text \<open>The fields of the request body, after their defaults.\<close>

record request_data =
  codeContext :: string
  prompt :: string
  agentCountParam :: int
  maxRounds :: int
  reasoningDepth :: int
  fileType :: string

record agent =
  agent_id :: string
  agent_origin :: string

text \<open>
  The state of the nested loop: the agents with their current origins, the global
  \<^verbatim>\<open>ollama_model_index\<close>, and the fragments appended so far. The log entries are only
  written, never read, and are left out.
\<close>

record orch_state =
  st_agents :: "agent list"
  st_model_index :: nat
  st_fragments :: "fragment list"

definition genesis_of :: "env \<Rightarrow> request_data \<Rightarrow> string" where
  "genesis_of ev data = sha256 ev (''GENESIS'' @ time_str ev @ codeContext data)"

definition agent_name :: "nat \<Rightarrow> string" where
  "agent_name i = ''agent-'' @ str_nat i"

definition init_agents :: "env \<Rightarrow> string \<Rightarrow> int \<Rightarrow> agent list" where
  "init_agents ev genesis_hash agent_count =
     map (\<lambda>i. \<lparr>agent_id = agent_name i,
                agent_origin = sha256 ev (genesis_hash @ agent_name i @ random_str ev i)\<rparr>)
         [0 ..< nat agent_count]"

text \<open>The body of the inner loop, for the agent at position \<open>i\<close> of the list.\<close>

definition agent_step ::
  "env \<Rightarrow> request_data \<Rightarrow> string \<Rightarrow> nat \<Rightarrow> orch_state \<Rightarrow> nat \<Rightarrow> py_error + orch_state" where
  "agent_step ev data genesis_hash rnd st i =
     (let ag = st_agents st ! i
      in case get_next_model OLLAMA_MODELS (st_model_index st) of
           Inl e \<Rightarrow> Inl e
         | Inr (mdl, index') \<Rightarrow>
             (case perform_fractal_reasoning (requests_post ev (length (st_fragments st)))
                     (agent_id ag) mdl (prompt data) (codeContext data) rnd (agent_origin ag)
                     (fileType data) (reasoningDepth data) of
                Inl e \<Rightarrow> Inl e
              | Inr result \<Rightarrow>
                  let new_origin = sha256 ev (agent_origin ag @ genesis_hash @ str_nat rnd);
                      ag' = ag\<lparr>agent_origin := new_origin\<rparr>
                  in case calculate_entropy new_origin of
                       Inl e \<Rightarrow> Inl e
                     | Inr ent \<Rightarrow>
                         Inr \<lparr>st_agents = (st_agents st)[i := ag'],
                              st_model_index = index',
                              st_fragments = st_fragments st @
                                [\<lparr>agentId = agent_id ag', origin = agent_origin ag',
                                  round_num = rnd, candidate = r_candidate result,
                                  entropy = ent, model = mdl\<rparr>]\<rparr>))"

definition round_step ::
  "env \<Rightarrow> request_data \<Rightarrow> string \<Rightarrow> orch_state \<Rightarrow> nat \<Rightarrow> py_error + orch_state" where
  "round_step ev data genesis_hash st rnd =
     for_each (agent_step ev data genesis_hash rnd) st [0 ..< length (st_agents st)]"

definition initial_state :: "env \<Rightarrow> request_data \<Rightarrow> nat \<Rightarrow> orch_state" where
  "initial_state ev data index =
     \<lparr>st_agents = init_agents ev (genesis_of ev data) (agentCountParam data),
      st_model_index = index, st_fragments = []\<rparr>"

text \<open>The first \<open>n\<close> rounds of the run, and the whole run.\<close>

definition run_rounds :: "env \<Rightarrow> request_data \<Rightarrow> nat \<Rightarrow> nat \<Rightarrow> py_error + orch_state" where
  "run_rounds ev data index n =
     for_each (round_step ev data (genesis_of ev data)) (initial_state ev data index) [0 ..< n]"

definition orchestration :: "env \<Rightarrow> request_data \<Rightarrow> nat \<Rightarrow> py_error + orch_state" where
  "orchestration ev data index = run_rounds ev data index (nat (maxRounds data))"

text \<open>
  \<^verbatim>\<open>orchestrate\<close>: the success response carries the consensus; the counter afterwards is
  returned with it. \<open>Inl e\<close> is the error response of the outer handler.
\<close>

definition orchestrate :: "env \<Rightarrow> request_data \<Rightarrow> nat \<Rightarrow> py_error + (consensus \<times> nat)" where
  "orchestrate ev data index =
     (case orchestration ev data index of
        Inl e \<Rightarrow> Inl e
      | Inr st \<Rightarrow>
          (case assemble_final_answer (st_fragments st) (genesis_of ev data) of
             Inl e \<Rightarrow> Inl e
           | Inr cons \<Rightarrow> Inr (cons, st_model_index st)))"

subsection \<open>What the orchestration loop computes\<close>

text \<open>
  The terms in which the state of the loop is stated. \<open>origin_chain i r\<close> is the origin
  of agent \<open>i\<close> after \<open>r\<close> rounds; call \<open>k\<close> of a run with \<open>n\<close> agents is the call of
  round \<open>k div n\<close> for agent \<open>k mod n\<close>; \<open>loop_state r j\<close> is the state after \<open>r\<close> whole
  rounds and the first \<open>j\<close> agents of the next.
\<close>

fun origin_chain :: "env \<Rightarrow> request_data \<Rightarrow> nat \<Rightarrow> nat \<Rightarrow> string" where
  "origin_chain ev data i 0 =
     sha256 ev (genesis_of ev data @ agent_name i @ random_str ev i)"
| "origin_chain ev data i (Suc r) =
     sha256 ev (origin_chain ev data i r @ genesis_of ev data @ str_nat r)"

definition slot_model :: "nat \<Rightarrow> nat \<Rightarrow> string" where
  "slot_model index k = OLLAMA_MODELS ! ((index + k) mod length OLLAMA_MODELS)"

definition slot_prompt :: "request_data \<Rightarrow> nat \<Rightarrow> nat \<Rightarrow> nat \<Rightarrow> string" where
  "slot_prompt data index n k =
     full_prompt (agent_name (k mod n)) (slot_model index k) (prompt data) (codeContext data)
       (k div n) (fileType data) (reasoningDepth data)"

definition slot_candidate :: "env \<Rightarrow> request_data \<Rightarrow> nat \<Rightarrow> nat \<Rightarrow> nat \<Rightarrow> string" where
  "slot_candidate ev data index n k =
     (case perform_fractal_reasoning (requests_post ev k) (agent_name (k mod n))
             (slot_model index k) (prompt data) (codeContext data) (k div n)
             (origin_chain ev data (k mod n) (k div n)) (fileType data) (reasoningDepth data) of
        Inl e \<Rightarrow> []
      | Inr result \<Rightarrow> r_candidate result)"

definition entropy_value :: "string \<Rightarrow> real" where
  "entropy_value s = (case calculate_entropy s of Inl e \<Rightarrow> 0 | Inr v \<Rightarrow> v)"

definition slot_fragment :: "env \<Rightarrow> request_data \<Rightarrow> nat \<Rightarrow> nat \<Rightarrow> nat \<Rightarrow> fragment" where
  "slot_fragment ev data index n k =
     \<lparr>agentId = agent_name (k mod n),
      origin = origin_chain ev data (k mod n) (Suc (k div n)),
      round_num = k div n,
      candidate = slot_candidate ev data index n k,
      entropy = entropy_value (origin_chain ev data (k mod n) (Suc (k div n))),
      model = slot_model index k\<rparr>"

definition loop_state :: "env \<Rightarrow> request_data \<Rightarrow> nat \<Rightarrow> nat \<Rightarrow> nat \<Rightarrow> nat \<Rightarrow> orch_state" where
  "loop_state ev data index n r j =
     \<lparr>st_agents =
        map (\<lambda>i. \<lparr>agent_id = agent_name i,
                   agent_origin = origin_chain ev data i (if i < j then Suc r else r)\<rparr>)
            [0 ..< n],
      st_model_index = index + r * n + j,
      st_fragments = map (slot_fragment ev data index n) [0 ..< r * n + j]\<rparr>"

text \<open>
  The service answers every call with a text or with a
  \<^verbatim>\<open>RequestException\<close>: no call raises anything else.
\<close>

definition no_other_exception :: "env \<Rightarrow> bool" where
  "no_other_exception ev = (\<forall>k m p msg. requests_post ev k m p \<noteq> OtherException msg)"

text \<open>The number that a decimal rendering denotes; the inverse of \<open>str_nat\<close>.\<close>

definition digits_value :: "string \<Rightarrow> nat" where
  "digits_value s = foldl (\<lambda>a c. 10 * a + (of_char c - 48)) 0 s"

text \<open>
  A run for the witnesses: three agents, two rounds, a digest that keeps eight characters,
  and a service whose second call fails.
\<close>

definition example_env :: env where
  "example_env =
     \<lparr>sha256 = (\<lambda>s. take 8 (rev s)), time_str = ''1700000000.0'',
      random_str = (\<lambda>i. ''0.5''),
      requests_post = (\<lambda>k m p. if k = 1 then RequestException ''timed out''
                                  else Response ''x=1'')\<rparr>"

definition example_request :: request_data where
  "example_request =
     \<lparr>codeContext = ''x'', prompt = ''Optimize this code'', agentCountParam = 3,
      maxRounds = 2, reasoningDepth = 3, fileType = ''javascript''\<rparr>"

text \<open>
  A run of one agent and one round in which the body of the answer is not a JSON object
  with a string under \<^verbatim>\<open>"response"\<close>: the call raises an \<^verbatim>\<open>AttributeError\<close>, which is
  no \<^verbatim>\<open>RequestException\<close>.
\<close>

definition aborting_env :: env where
  "aborting_env =
     \<lparr>sha256 = (\<lambda>s. take 8 (rev s)), time_str = ''1700000000.0'',
      random_str = (\<lambda>i. ''0.5''),
      requests_post = (\<lambda>k m p. OtherException ''AttributeError'')\<rparr>"

definition single_request :: request_data where
  "single_request =
     \<lparr>codeContext = ''x'', prompt = ''Optimize this code'', agentCountParam = 1,
      maxRounds = 1, reasoningDepth = 3, fileType = ''javascript''\<rparr>"

section \<open>Properties of the entropy function\<close>

lemma round_half_even_of_int: "round_half_even (of_int n) = n"
  by (simp add: round_half_even_def)

lemma round_digits_zero: "round_digits 0 n = 0"
  using round_half_even_of_int [of 0] by (simp add: round_digits_def)

lemma distinct_count_char:
  "distinct (map fst al) \<Longrightarrow> distinct (map fst (count_char al c))"
  by (simp add: count_char_def distinct_update)

lemma map_of_count_char:
  "map_of (count_char al c) = (map_of al)(c \<mapsto> (case map_of al c of None \<Rightarrow> 0 | Some n \<Rightarrow> n) + 1)"
  by (simp add: count_char_def update_conv')

lemma foldl_count_char_distinct:
  "distinct (map fst al) \<Longrightarrow> distinct (map fst (foldl count_char al s))"
  by (induction s arbitrary: al) (simp_all add: distinct_count_char)

lemma foldl_count_char_map_of:
  "map_of (foldl count_char al s) c =
     (if c \<in> set s \<or> c \<in> dom (map_of al)
      then Some ((case map_of al c of None \<Rightarrow> 0 | Some n \<Rightarrow> n) + count_list s c)
      else None)"
proof (induction s arbitrary: al)
  case Nil
  then show ?case by (auto split: option.splits)
next
  case (Cons a s)
  show ?case
    by (simp add: Cons.IH map_of_count_char split: option.splits) auto
qed

lemma char_counts_of_distinct: "distinct (map fst (char_counts_of s))"
  by (simp add: char_counts_of_def foldl_count_char_distinct)

lemma char_counts_of_map_of:
  "map_of (char_counts_of s) c = (if c \<in> set s then Some (count_list s c) else None)"
  by (simp add: char_counts_of_def foldl_count_char_map_of)

lemma char_counts_of_keys: "set (map fst (char_counts_of s)) = set s"
proof -
  have "set (map fst (char_counts_of s)) = dom (map_of (char_counts_of s))"
    by (simp add: dom_map_of_conv_image_fst)
  also have "\<dots> = set s"
    by (auto simp: dom_def char_counts_of_map_of)
  finally show ?thesis .
qed

lemma char_counts_of_entries:
  "char_counts_of s = map (\<lambda>c. (c, count_list s c)) (map fst (char_counts_of s))"
proof -
  have "\<And>p. p \<in> set (char_counts_of s) \<Longrightarrow> p = (fst p, count_list s (fst p))"
  proof -
    fix p assume p: "p \<in> set (char_counts_of s)"
    then have "map_of (char_counts_of s) (fst p) = Some (snd p)"
      using char_counts_of_distinct [of s] by simp
    then have "snd p = count_list s (fst p)"
      by (simp add: char_counts_of_map_of split: if_splits)
    then show "p = (fst p, count_list s (fst p))"
      by (metis prod.collapse)
  qed
  then show ?thesis
    by (simp add: map_idI comp_def cong: map_cong) 
qed

lemma entropy_loop_sum:
  "0 < len \<Longrightarrow> \<forall>n \<in> set counts. 0 < n \<Longrightarrow>
   entropy_loop len e counts = Inr (e - sum_list (map (plogp len) counts))"
  by (induction counts arbitrary: e) (simp_all add: plogp_def Let_def not_le)

lemma count_list_pos: "c \<in> set s \<Longrightarrow> 0 < count_list s c"
  by (simp add: count_list_0_iff zero_less_iff_neq_zero)

lemma entropy_raw:
  assumes "s \<noteq> []"
  shows "entropy_loop (length s) 0 (map snd (char_counts_of s)) =
         Inr (- (\<Sum>c \<in> set s. plogp (length s) (count_list s c)))"
proof -
  let ?ks = "map fst (char_counts_of s)"
  have vals: "map snd (char_counts_of s) = map (count_list s) ?ks"
    by (subst char_counts_of_entries) (simp add: comp_def)
  have pos: "\<forall>n \<in> set (map snd (char_counts_of s)). 0 < n"
    unfolding vals using char_counts_of_keys [of s] by (auto intro!: count_list_pos)
  have len: "0 < length s" using assms by simp
  have "sum_list (map (plogp (length s)) (map (count_list s) ?ks))
        = sum_list (map (\<lambda>c. plogp (length s) (count_list s c)) ?ks)"
    by (simp add: comp_def)
  also have "\<dots> = (\<Sum>c \<in> set ?ks. plogp (length s) (count_list s c))"
    using char_counts_of_distinct [of s] by (rule sum_list_distinct_conv_sum_set)
  also have "\<dots> = (\<Sum>c \<in> set s. plogp (length s) (count_list s c))"
    using char_counts_of_keys [of s] by simp
  finally have "sum_list (map (plogp (length s)) (map snd (char_counts_of s)))
        = (\<Sum>c \<in> set s. plogp (length s) (count_list s c))"
    unfolding vals .
  with entropy_loop_sum [OF len pos, of 0] show ?thesis by simp
qed

lemma gibbs:
  fixes p :: "'a \<Rightarrow> real"
  assumes fin: "finite A" and ne: "A \<noteq> {}" and pos: "\<And>a. a \<in> A \<Longrightarrow> 0 < p a"
    and one: "sum p A = 1"
  shows "- (\<Sum>a \<in> A. p a * ln (p a)) \<le> ln (real (card A))"
proof -
  let ?k = "real (card A)"
  have k: "0 < ?k" using fin ne by (simp add: card_gt_0_iff)
  have bound: "p a * ln (1 / (?k * p a)) \<le> 1 / ?k - p a" if "a \<in> A" for a
  proof -
    have pa: "0 < p a" using that pos by simp
    have "ln (1 / (?k * p a)) \<le> 1 / (?k * p a) - 1"
      using k pa by (intro ln_le_minus_one) simp
    then have "p a * ln (1 / (?k * p a)) \<le> p a * (1 / (?k * p a) - 1)"
      using pa by (simp add: mult_left_mono)
    also have "\<dots> = 1 / ?k - p a"
      using pa k by (simp add: field_simps)
    finally show ?thesis .
  qed
  have split: "p a * ln (1 / (?k * p a)) = - (p a * ln (p a)) - p a * ln ?k" if "a \<in> A" for a
  proof -
    have pa: "0 < p a" using that pos by simp
    have "ln (1 / (?k * p a)) = - ln ?k - ln (p a)"
      using k pa by (simp add: ln_div ln_mult)
    then have "p a * ln (1 / (?k * p a)) = p a * (- ln ?k - ln (p a))" by simp
    then show ?thesis by (simp add: algebra_simps)
  qed
  have "(\<Sum>a \<in> A. - (p a * ln (p a)) - p a * ln ?k) = (\<Sum>a \<in> A. p a * ln (1 / (?k * p a)))"
    using split by (intro sum.cong) simp_all
  also have "\<dots> \<le> (\<Sum>a \<in> A. 1 / ?k - p a)"
    using bound by (intro sum_mono) simp
  also have "\<dots> = 0"
    using k one by (simp add: sum_subtractf)
  finally have "(\<Sum>a \<in> A. - (p a * ln (p a)) - p a * ln ?k) \<le> 0" .
  moreover have "(\<Sum>a \<in> A. - (p a * ln (p a)) - p a * ln ?k)
      = - (\<Sum>a \<in> A. p a * ln (p a)) - ln ?k * sum p A"
    by (simp add: sum_subtractf sum_negf sum_distrib_right mult.commute)
  ultimately show ?thesis using one by simp
qed

lemma plogp_nonpos: "0 < n \<Longrightarrow> n \<le> len \<Longrightarrow> plogp len n \<le> 0"
proof -
  assume n: "0 < n" "n \<le> len"
  then have "0 < real n / real len" "real n / real len \<le> 1" by simp_all
  then have "log 2 (real n / real len) \<le> 0" by simp
  with \<open>0 < real n / real len\<close>
  have "(real n / real len) * log 2 (real n / real len) \<le> 0"
    by (intro mult_nonneg_nonpos) simp_all
  then show ?thesis by (simp only: plogp_def)
qed

lemma entropy_sum_nonneg:
  "0 \<le> - (\<Sum>c \<in> set s. plogp (length s) (count_list s c))"
proof -
  have "plogp (length s) (count_list s c) \<le> 0" if "c \<in> set s" for c
    using that by (intro plogp_nonpos count_list_pos count_le_length)
  then have "(\<Sum>c \<in> set s. plogp (length s) (count_list s c)) \<le> 0"
    by (intro sum_nonpos) simp
  then show ?thesis by simp
qed

lemma entropy_sum_le_log_card:
  assumes "s \<noteq> []"
  shows "- (\<Sum>c \<in> set s. plogp (length s) (count_list s c)) \<le> log 2 (real (card (set s)))"
proof -
  let ?p = "\<lambda>c. real (count_list s c) / real (length s)"
  have len: "0 < real (length s)" using assms by simp
  have "sum ?p (set s) = real (sum (count_list s) (set s)) / real (length s)"
    by (simp add: sum_divide_distrib)
  also have "\<dots> = 1"
    using len by (simp add: sum_count_set)
  finally have one: "sum ?p (set s) = 1" .
  have pos: "\<And>c. c \<in> set s \<Longrightarrow> 0 < ?p c"
    using len by (simp add: count_list_pos)
  have ne: "set s \<noteq> {}" using assms by simp
  have "- (\<Sum>c \<in> set s. ?p c * ln (?p c)) \<le> ln (real (card (set s)))"
    using gibbs [of "set s" ?p, OF _ ne pos one] by simp
  then have "- (\<Sum>c \<in> set s. ?p c * ln (?p c)) / ln 2 \<le> ln (real (card (set s))) / ln 2"
    by (intro divide_right_mono) simp_all
  moreover have "- (\<Sum>c \<in> set s. ?p c * ln (?p c)) / ln 2
      = - (\<Sum>c \<in> set s. plogp (length s) (count_list s c))"
    by (simp add: plogp_def log_def sum_divide_distrib)
  ultimately show ?thesis by (simp add: log_def)
qed

lemma round_half_even_ge: "of_int m \<le> x \<Longrightarrow> m \<le> round_half_even x"
proof -
  assume "of_int m \<le> x"
  then have "m \<le> \<lfloor>x\<rfloor>" by (simp add: le_floor_iff)
  then show ?thesis by (simp add: round_half_even_def Let_def)
qed

lemma round_half_even_le: "x \<le> of_int m \<Longrightarrow> round_half_even x \<le> m"
proof -
  assume x: "x \<le> of_int m"
  then have f: "\<lfloor>x\<rfloor> \<le> m" by (simp add: floor_le_iff)
  show ?thesis
  proof (cases "\<lfloor>x\<rfloor> = m")
    case True
    then have "of_int m \<le> x" by linarith
    with x have "x = of_int m" by simp
    then show ?thesis by (simp add: round_half_even_of_int)
  next
    case False
    with f have "\<lfloor>x\<rfloor> + 1 \<le> m" by simp
    then show ?thesis by (simp add: round_half_even_def Let_def)
  qed
qed

lemma round_digits_bounds:
  "real_of_int lo \<le> x \<Longrightarrow> x \<le> real_of_int hi \<Longrightarrow>
   real_of_int lo \<le> round_digits x n \<and> round_digits x n \<le> real_of_int hi"
proof -
  assume lo: "real_of_int lo \<le> x" and hi: "x \<le> real_of_int hi"
  have "real_of_int (lo * 10 ^ n) \<le> x * 10 ^ n" using lo by simp
  then have a: "lo * 10 ^ n \<le> round_half_even (x * 10 ^ n)" by (rule round_half_even_ge)
  have "x * 10 ^ n \<le> real_of_int (hi * 10 ^ n)" using hi by simp
  then have b: "round_half_even (x * 10 ^ n) \<le> hi * 10 ^ n" by (rule round_half_even_le)
  from a have "real_of_int (lo * 10 ^ n) \<le> real_of_int (round_half_even (x * 10 ^ n))"
    by (simp only: of_int_le_iff)
  moreover from b have "real_of_int (round_half_even (x * 10 ^ n)) \<le> real_of_int (hi * 10 ^ n)"
    by (simp only: of_int_le_iff)
  ultimately show ?thesis
    by (simp add: round_digits_def field_simps)
qed

lemma calculate_entropy_value:
  "calculate_entropy s =
     Inr (round_digits (- (\<Sum>c \<in> set s. plogp (length s) (count_list s c))) 3)"
proof (cases "s = []")
  case True
  then show ?thesis by (simp add: calculate_entropy_def char_counts_of_def)
next
  case False
  then show ?thesis by (simp add: calculate_entropy_def entropy_raw)
qed


lemma count_list_replicate: "count_list (replicate n c) c = n"
  by (induction n) simp_all

text \<open>
  Claim C9. On the empty string the frequency table is empty, so the loop whose body
  divides by the length runs zero times: the function returns 0 and raises nothing.
\<close>

theorem calculate_entropy_empty:
  "char_counts_of [] = [] \<and> calculate_entropy [] = Inr 0"
  by (simp add: calculate_entropy_def char_counts_of_def round_digits_zero)

text \<open>
  Claim C6. For a string over an alphabet of 16 symbols (a hex digest in particular) the
  entropy function returns a value between 0 and 4, and for a string that repeats one
  character it returns exactly 0.
\<close>

theorem calculate_entropy_bounds:
  assumes "finite A" and "card A = 16" and "set s \<subseteq> A"
  shows "(\<exists>e. calculate_entropy s = Inr e \<and> 0 \<le> e \<and> e \<le> 4)
         \<and> calculate_entropy (replicate n c) = Inr 0"
proof
  let ?h = "- (\<Sum>c \<in> set s. plogp (length s) (count_list s c))"
  have lo: "real_of_int 0 \<le> ?h" using entropy_sum_nonneg [of s] by simp
  have hi: "?h \<le> real_of_int 4"
  proof (cases "s = []")
    case True then show ?thesis by simp
  next
    case False
    then have c0: "0 < card (set s)" by (simp add: card_gt_0_iff)
    have "card (set s) \<le> 16" using assms card_mono by metis
    then have "log 2 (real (card (set s))) \<le> log 2 16"
      using c0 by simp
    also have "log 2 16 = (4::real)"
      using log_pow_cancel [of 2 4] by simp
    finally show ?thesis using entropy_sum_le_log_card [OF False] by simp
  qed
  from round_digits_bounds [OF lo hi, of 3]
  show "\<exists>e. calculate_entropy s = Inr e \<and> 0 \<le> e \<and> e \<le> 4"
    by (simp add: calculate_entropy_value)
next
  show "calculate_entropy (replicate n c) = Inr 0"
  proof (cases "n = 0")
    case True then show ?thesis by (simp add: calculate_entropy_value round_digits_zero)
  next
    case False
    then have st: "set (replicate n c) = {c}" by simp
    have "plogp n n = 0" using False by (simp add: plogp_def)
    then show ?thesis
      by (simp only: calculate_entropy_value st length_replicate)
         (simp add: round_digits_zero count_list_replicate)
  qed
qed

theorem calculate_entropy_bounds_witness:
  "finite (set ''0123456789abcdef'') \<and> card (set ''0123456789abcdef'') = 16
   \<and> set ''e3b0c44298fc1c149afbf4c8996fb92427ae41e4649b934ca495991b7852b855''
        \<subseteq> set ''0123456789abcdef''
   \<and> (\<exists>e. calculate_entropy ''e3b0c44298fc1c149afbf4c8996fb92427ae41e4649b934ca495991b7852b855''
              = Inr e \<and> 0 \<le> e \<and> e \<le> 4)
   \<and> calculate_entropy (replicate 64 CHR ''a'') = Inr 0"
proof -
  have a: "finite (set ''0123456789abcdef'')" by simp
  have b: "card (set ''0123456789abcdef'') = 16" by simp
  have c: "set ''e3b0c44298fc1c149afbf4c8996fb92427ae41e4649b934ca495991b7852b855''
             \<subseteq> set ''0123456789abcdef''" by simp
  show ?thesis
    using a b c calculate_entropy_bounds [OF a b c, of 64 "CHR ''a''"] by blast
qed

section \<open>Properties of the model rotator\<close>

lemma next_models_closed:
  "models \<noteq> [] \<Longrightarrow>
   next_models models c k =
     Inr (map (\<lambda>j. models ! ((c + j) mod length models)) [0 ..< k], c + k)"
proof (induction k arbitrary: c)
  case 0
  then show ?case by simp
next
  case (Suc k)
  have "map (\<lambda>j. models ! ((c + j) mod length models)) [0 ..< Suc k]
        = models ! (c mod length models)
          # map (\<lambda>j. models ! ((Suc c + j) mod length models)) [0 ..< k]"
    by (simp add: map_upt_Suc del: upt_Suc)
  with Suc show ?case
    by (simp add: get_next_model_def del: upt_Suc)
qed

text \<open>
  Claim C7. With counter \<open>c\<close> and a configured list of length \<open>n > 0\<close>, a call returns the
  model at index \<open>c mod n\<close> (an index of the list) and leaves the counter at \<open>c + 1\<close>;
  \<open>k\<close> consecutive calls return the models at \<open>(c + j) mod n\<close> for \<open>j < k\<close>, in this
  order, so the sequence is determined by the starting counter and the list.
\<close>

theorem get_next_model_round_robin:
  assumes "models \<noteq> []"
  shows "get_next_model models c = Inr (models ! (c mod length models), c + 1)
         \<and> c mod length models < length models
         \<and> next_models models c k =
             Inr (map (\<lambda>j. models ! ((c + j) mod length models)) [0 ..< k], c + k)"
  using assms next_models_closed [OF assms, of c k] by (simp add: get_next_model_def)

theorem get_next_model_round_robin_witness:
  "OLLAMA_MODELS \<noteq> []
   \<and> get_next_model OLLAMA_MODELS 7 = Inr (''gemma:latest'', 8)
   \<and> next_models OLLAMA_MODELS 7 3 =
       Inr ([''gemma:latest'', ''deepseek-coder:latest'', ''gemma:latest''], 10)"
proof -
  have ne: "OLLAMA_MODELS \<noteq> []" by (simp add: OLLAMA_MODELS_def)
  have up: "[0 ..< 3] = [0, 1, 2::nat]" by (simp add: upt_rec)
  show ?thesis
    using ne get_next_model_round_robin [OF ne, of 7 3]
    by (simp add: OLLAMA_MODELS_def up)
qed

section \<open>Properties of the consensus assembler\<close>

lemma first_max_snoc:
  "first_max (fs @ [f]) =
     (case first_max fs of
        None \<Rightarrow> Some f
      | Some b \<Rightarrow> if entropy b < entropy f then Some f else Some b)"
  by (induction fs) (auto split: option.splits)

lemma first_max_None: "first_max fs = None \<longleftrightarrow> fs = []"
  by (cases fs) (auto split: option.splits)

lemma first_max_Some:
  "first_max fs = Some b \<Longrightarrow>
   \<exists>pre post. fs = pre @ b # post \<and> (\<forall>f \<in> set pre. entropy f < entropy b)
              \<and> (\<forall>f \<in> set post. entropy f \<le> entropy b)"
proof (induction fs arbitrary: b)
  case Nil
  then show ?case by simp
next
  case (Cons f fs)
  show ?case
  proof (cases "first_max fs")
    case None
    then have "fs = []" by (simp add: first_max_None)
    with Cons.prems have "f # fs = [] @ b # [] \<and> (\<forall>x \<in> set []. entropy x < entropy b)
        \<and> (\<forall>x \<in> set []. entropy x \<le> entropy b)" by simp
    then show ?thesis by blast
  next
    case (Some b')
    from Cons.IH [OF Some] obtain pre post where
      fs: "fs = pre @ b' # post" and pre: "\<forall>x \<in> set pre. entropy x < entropy b'"
      and post: "\<forall>x \<in> set post. entropy x \<le> entropy b'" by blast
    show ?thesis
    proof (cases "entropy f < entropy b'")
      case True
      with Some Cons.prems have "b = b'" by simp
      with fs pre post True have "f # fs = (f # pre) @ b # post
          \<and> (\<forall>x \<in> set (f # pre). entropy x < entropy b)
          \<and> (\<forall>x \<in> set post. entropy x \<le> entropy b)" by simp
      then show ?thesis by blast
    next
      case False
      with Some Cons.prems have b: "b = f" by simp
      have "\<forall>x \<in> set fs. entropy x \<le> entropy f"
        using fs pre post False by auto
      with b have "f # fs = [] @ b # fs \<and> (\<forall>x \<in> set []. entropy x < entropy b)
          \<and> (\<forall>x \<in> set fs. entropy x \<le> entropy b)" by simp
      then show ?thesis by blast
    qed
  qed
qed

lemma update_keyed_map:
  "distinct ks \<Longrightarrow>
   AList.update k v (map (\<lambda>x. (x, G x)) ks) =
     (if k \<in> set ks then map (\<lambda>x. (x, if x = k then v else G x)) ks
      else map (\<lambda>x. (x, G x)) ks @ [(k, v)])"
  by (induction ks) auto

lemma map_of_keyed_map:
  "map_of (map (\<lambda>x. (x, G x)) ks) k = (if k \<in> set ks then Some (G k) else None)"
  by (induction ks) auto

lemma distinct_group_keys: "distinct (group_keys frs)"
  by (simp add: group_keys_def)

lemma set_group_keys: "set (group_keys frs) = {k. k \<noteq> [] \<and> (\<exists>f \<in> set frs. key_of f = k)}"
  by (auto simp: group_keys_def)

lemma group_keys_snoc:
  "group_keys (frs @ [f]) =
     (if key_of f = [] \<or> key_of f \<in> set (group_keys frs) then group_keys frs
      else group_keys frs @ [key_of f])"
  by (auto simp: group_keys_def)

lemma members_snoc:
  "members k (frs @ [f]) = (if key_of f = k then members k frs @ [f] else members k frs)"
  by (simp add: members_def)

lemma members_empty_iff: "members k frs = [] \<longleftrightarrow> (\<forall>f \<in> set frs. key_of f \<noteq> k)"
  by (auto simp: members_def filter_empty_conv)

lemma group_of_snoc_other:
  "key_of f \<noteq> k \<Longrightarrow> group_of k (frs @ [f]) = group_of k frs"
  by (simp add: group_of_def members_snoc)

lemma add_fragment_closed:
  "add_fragment (map (\<lambda>k. (k, group_of k frs)) (group_keys frs)) f
   = map (\<lambda>k. (k, group_of k (frs @ [f]))) (group_keys (frs @ [f]))"
proof (cases "key_of f = []")
  case True
  have "\<And>k. k \<in> set (group_keys frs) \<Longrightarrow> group_of k (frs @ [f]) = group_of k frs"
    using True by (intro group_of_snoc_other) (auto simp: set_group_keys)
  then show ?thesis using True
    by (simp add: add_fragment_def key_of_def [symmetric] group_keys_snoc)
next
  case False
  let ?k = "key_of f"
  let ?g0 = "case map_of (map (\<lambda>k. (k, group_of k frs)) (group_keys frs)) ?k of
               None \<Rightarrow> new_group | Some g \<Rightarrow> g"
  have g0: "?g0 = group_of ?k frs"
  proof (cases "?k \<in> set (group_keys frs)")
    case True then show ?thesis by (simp add: map_of_keyed_map)
  next
    case notin: False
    then have "members ?k frs = []"
      using False by (auto simp: set_group_keys members_empty_iff)
    then show ?thesis using notin
      by (simp add: map_of_keyed_map new_group_def group_of_def)
  qed
  have step: "add_fragment (map (\<lambda>k. (k, group_of k frs)) (group_keys frs)) f
      = AList.update ?k (group_of ?k (frs @ [f])) (map (\<lambda>k. (k, group_of k frs)) (group_keys frs))"
    using False
    apply (simp add: add_fragment_def key_of_def [symmetric] Let_def g0 del: map_of_map)
    apply (simp add: group_of_def members_snoc first_max_snoc split: option.splits)
    done
  have other: "\<And>k. k \<noteq> ?k \<Longrightarrow> group_of k (frs @ [f]) = group_of k frs"
    by (simp add: group_of_snoc_other)
  show ?thesis
  proof (cases "?k \<in> set (group_keys frs)")
    case True
    have "map (\<lambda>x. (x, if x = ?k then group_of ?k (frs @ [f]) else group_of x frs)) (group_keys frs)
          = map (\<lambda>x. (x, group_of x (frs @ [f]))) (group_keys frs)"
      by (rule map_cong) (auto simp: other)
    then show ?thesis
      unfolding step using True
      by (simp add: update_keyed_map distinct_group_keys group_keys_snoc)
  next
    case notin: False
    have "map (\<lambda>x. (x, group_of x frs)) (group_keys frs)
          = map (\<lambda>x. (x, group_of x (frs @ [f]))) (group_keys frs)"
    proof (rule map_cong)
      fix x assume "x \<in> set (group_keys frs)"
      with notin have "x \<noteq> ?k" by auto
      then show "(x, group_of x frs) = (x, group_of x (frs @ [f]))" by (simp add: other)
    qed simp
    then show ?thesis
      unfolding step using notin False
      by (simp add: update_keyed_map distinct_group_keys group_keys_snoc)
  qed
qed

lemma foldl_add_fragment_snoc:
  "group_fragments (frs @ [f]) = add_fragment (group_fragments frs) f"
  by (simp add: group_fragments_def)

lemma group_fragments_closed:
  "group_fragments frs = map (\<lambda>k. (k, group_of k frs)) (group_keys frs)"
proof (induction frs rule: rev_induct)
  case Nil
  show ?case by (simp add: group_fragments_def group_keys_def)
next
  case (snoc f frs)
  show ?case
    by (simp only: foldl_add_fragment_snoc snoc.IH add_fragment_closed)
qed

lemma score_group_closed:
  "members k frs \<noteq> [] \<Longrightarrow>
   score_group acc (k, group_of k frs) = Inr (acc @ [scored_of k frs])"
proof -
  assume ne: "members k frs \<noteq> []"
  then obtain f fs where ms: "members k frs = f # fs" by (cases "members k frs") auto
  from ne obtain b where b: "first_max (members k frs) = Some b"
    by (cases "first_max (members k frs)") (auto simp: first_max_None)
  show ?thesis
    using b by (simp add: score_group_def group_of_def scored_of_def Let_def ms)
qed

lemma for_each_score_group:
  "\<forall>k \<in> set ks. members k frs \<noteq> [] \<Longrightarrow>
   for_each score_group acc (map (\<lambda>k. (k, group_of k frs)) ks)
     = Inr (acc @ map (\<lambda>k. scored_of k frs) ks)"
  by (induction ks arbitrary: acc) (simp_all add: score_group_closed)

lemma members_group_keys: "k \<in> set (group_keys frs) \<Longrightarrow> members k frs \<noteq> []"
  by (auto simp: set_group_keys members_empty_iff)


lemma scored_groups_closed:
  "for_each score_group [] (group_fragments frs) = Inr (scored_list frs)"
  using for_each_score_group [of "group_keys frs" frs "[]"]
  by (simp add: group_fragments_closed members_group_keys scored_list_def)

lemma sort_by_score_Nil: "sort_by_score xs = [] \<longleftrightarrow> xs = []"
  by (metis length_0_conv length_sort sort_by_score_def)

lemma assemble_degenerate:
  "group_keys frs = [] \<Longrightarrow>
   assemble_final_answer frs gh =
     Inr \<lparr>genesis = gh, selectedCandidate = no_candidates_text, score = 0,
          agentCount = None, roundCount = None, avgEntropy = None,
          rootAgent = None, rootEntropy = None, allGroups = []\<rparr>"
  by (simp add: assemble_final_answer_def scored_groups_closed scored_list_def)

lemma assemble_top:
  assumes "group_keys frs \<noteq> []"
  shows "\<exists>top rest. sort_by_score (scored_list frs) = top # rest \<and>
     assemble_final_answer frs gh =
       Inr \<lparr>genesis = gh, selectedCandidate = g_candidate top, score = g_score top,
            agentCount = Some (g_agentCount top), roundCount = Some (g_roundCount top),
            avgEntropy = Some (g_avgEntropy top), rootAgent = Some (g_rootAgent top),
            rootEntropy = Some (g_rootEntropy top), allGroups = top # rest\<rparr>"
proof -
  have ne: "scored_list frs \<noteq> []" using assms by (simp add: scored_list_def)
  then obtain top rest where s: "sort_by_score (scored_list frs) = top # rest"
    by (cases "sort_by_score (scored_list frs)") (simp_all add: sort_by_score_Nil)
  then show ?thesis using ne
    by (simp add: assemble_final_answer_def scored_groups_closed)
qed

lemma group_keys_Nil: "group_keys frs = [] \<longleftrightarrow> (\<forall>f \<in> set frs. key_of f = [])"
proof -
  have "group_keys frs = [] \<longleftrightarrow> set (group_keys frs) = {}" by simp
  also have "\<dots> \<longleftrightarrow> (\<forall>f \<in> set frs. key_of f = [])"
    unfolding set_group_keys by auto
  finally show ?thesis .
qed

lemma allGroups_closed:
  "\<exists>cons. assemble_final_answer frs gh = Inr cons
          \<and> allGroups cons = sort_by_score (scored_list frs)"
proof (cases "group_keys frs = []")
  case True
  then show ?thesis
    by (simp add: assemble_degenerate scored_list_def sort_by_score_def)
next
  case False
  from assemble_top [OF False, of gh] show ?thesis by auto
qed


lemma group_fragments_entry:
  "(k, g) \<in> set (group_fragments frs) \<longleftrightarrow> k \<in> set (group_keys frs) \<and> g = group_of k frs"
  by (auto simp: group_fragments_closed)

lemma scored_of_key: "g_key (scored_of k frs) = k"
  by (simp add: scored_of_def Let_def)

lemma set_sort_by_score: "set (sort_by_score xs) = set xs"
  by (simp add: sort_by_score_def)

lemma scored_entry:
  assumes "sg \<in> set (scored_list frs)"
  shows "g_key sg \<in> set (group_keys frs) \<and> sg = scored_of (g_key sg) frs"
  using assms by (auto simp: scored_list_def scored_of_key)


lemma scenario_keys: "group_keys scenario_fragments = [''x=1'']" by code_simp

lemma scenario_groups: "group_fragments scenario_fragments = [(''x=1'', group_of ''x=1'' scenario_fragments)]"
    by (simp add: group_fragments_closed scenario_keys)


lemma sort_by_score_sorted: "sorted_wrt (\<lambda>x y. g_score y \<le> g_score x) (sort_by_score xs)"
proof -
  have "sorted (map (\<lambda>x. - g_score x) (sort_by_score xs))"
    unfolding sort_by_score_def by (rule sorted_sort_key)
  then show ?thesis by (simp add: sorted_map)
qed

lemma sort_by_score_stable:
  "filter (\<lambda>x. g_score x = s) (sort_by_score xs) = filter (\<lambda>x. g_score x = s) xs"
proof -
  have "filter (\<lambda>x. - g_score x = - s) (sort_key (\<lambda>x. - g_score x) xs)
        = filter (\<lambda>x. - g_score x = - s) xs"
    by (rule sort_key_stable)
  then show ?thesis by (simp add: sort_by_score_def)
qed

lemma scored_list_keys: "map g_key (scored_list frs) = map fst (group_fragments frs)"
  by (simp add: scored_list_def group_fragments_closed comp_def scored_of_key)

lemma scored_of_first_root:
  assumes "k \<in> set (group_keys frs)"
  shows "\<exists>g first others pre best post.
           (k, g) \<in> set (group_fragments frs)
         \<and> candidates g = first # others \<and> g_candidate (scored_of k frs) = candidate first
         \<and> root_candidate g = Some best
         \<and> candidates g = pre @ best # post
         \<and> (\<forall>f \<in> set pre. entropy f < entropy best)
         \<and> (\<forall>f \<in> set post. entropy f \<le> entropy best)
         \<and> g_rootAgent (scored_of k frs) = agentId best
         \<and> g_rootEntropy (scored_of k frs) = entropy best"
proof -
  let ?ms = "members k frs"
  from members_group_keys [OF assms] obtain first others where ms: "?ms = first # others"
    by (cases ?ms) auto
  from members_group_keys [OF assms] obtain best where b: "first_max ?ms = Some best"
    by (cases "first_max ?ms") (auto simp: first_max_None)
  from first_max_Some [OF b] obtain pre post where
    pp: "?ms = pre @ best # post" "\<forall>f \<in> set pre. entropy f < entropy best"
        "\<forall>f \<in> set post. entropy f \<le> entropy best" by blast
  have 1: "(k, group_of k frs) \<in> set (group_fragments frs)"
    using assms by (simp add: group_fragments_entry)
  have 2: "candidates (group_of k frs) = first # others" by (simp add: group_of_def ms)
  have 3: "g_candidate (scored_of k frs) = candidate first"
    by (simp add: scored_of_def Let_def ms)
  have 4: "root_candidate (group_of k frs) = Some best" by (simp add: group_of_def b)
  have 5: "candidates (group_of k frs) = pre @ best # post" by (simp add: group_of_def pp(1))
  have 6: "g_rootAgent (scored_of k frs) = agentId best"
    "g_rootEntropy (scored_of k frs) = entropy best"
    using b by (simp_all add: scored_of_def Let_def)
  show ?thesis
    using 1 2 3 4 5 6 pp(2,3) by blast
qed

lemma assemble_selection_main:
  assumes "\<exists>f. f \<in> set frs \<and> grouping_key (candidate f) \<noteq> []"
  shows "\<exists>cons top rest.
           assemble_final_answer frs gh = Inr cons \<and> allGroups cons = top # rest
         \<and> sorted_wrt (\<lambda>x y. g_score y \<le> g_score x) (allGroups cons)
         \<and> map g_key (scored_list frs) = map fst (group_fragments frs)
         \<and> (\<forall>s. filter (\<lambda>x. g_score x = s) (allGroups cons)
                  = filter (\<lambda>x. g_score x = s) (scored_list frs))
         \<and> selectedCandidate cons = g_candidate top \<and> score cons = g_score top
         \<and> rootAgent cons = Some (g_rootAgent top)
         \<and> rootEntropy cons = Some (g_rootEntropy top)
         \<and> (\<forall>sg \<in> set (allGroups cons).
               \<exists>g first others pre best post.
                 (g_key sg, g) \<in> set (group_fragments frs)
               \<and> candidates g = first # others \<and> g_candidate sg = candidate first
               \<and> root_candidate g = Some best
               \<and> candidates g = pre @ best # post
               \<and> (\<forall>f \<in> set pre. entropy f < entropy best)
               \<and> (\<forall>f \<in> set post. entropy f \<le> entropy best)
               \<and> g_rootAgent sg = agentId best \<and> g_rootEntropy sg = entropy best)"
proof -
  from assms have ne: "group_keys frs \<noteq> []"
    by (auto simp: group_keys_Nil key_of_def)
  from assemble_top [OF ne, of gh] obtain top rest where
    s: "sort_by_score (scored_list frs) = top # rest"
    and c: "assemble_final_answer frs gh =
       Inr \<lparr>genesis = gh, selectedCandidate = g_candidate top, score = g_score top,
            agentCount = Some (g_agentCount top), roundCount = Some (g_roundCount top),
            avgEntropy = Some (g_avgEntropy top), rootAgent = Some (g_rootAgent top),
            rootEntropy = Some (g_rootEntropy top), allGroups = top # rest\<rparr>"
    by (elim exE conjE)
  let ?cons = "\<lparr>genesis = gh, selectedCandidate = g_candidate top, score = g_score top,
            agentCount = Some (g_agentCount top), roundCount = Some (g_roundCount top),
            avgEntropy = Some (g_avgEntropy top), rootAgent = Some (g_rootAgent top),
            rootEntropy = Some (g_rootEntropy top), allGroups = top # rest\<rparr>"
  have a: "allGroups ?cons = sort_by_score (scored_list frs)" by (simp add: s)
  have 1: "sorted_wrt (\<lambda>x y. g_score y \<le> g_score x) (allGroups ?cons)"
    unfolding a by (rule sort_by_score_sorted)
  have 2: "\<forall>s. filter (\<lambda>x. g_score x = s) (allGroups ?cons)
                  = filter (\<lambda>x. g_score x = s) (scored_list frs)"
    unfolding a by (simp add: sort_by_score_stable)
  have 3: "\<forall>sg \<in> set (allGroups ?cons).
               \<exists>g first others pre best post.
                 (g_key sg, g) \<in> set (group_fragments frs)
               \<and> candidates g = first # others \<and> g_candidate sg = candidate first
               \<and> root_candidate g = Some best
               \<and> candidates g = pre @ best # post
               \<and> (\<forall>f \<in> set pre. entropy f < entropy best)
               \<and> (\<forall>f \<in> set post. entropy f \<le> entropy best)
               \<and> g_rootAgent sg = agentId best \<and> g_rootEntropy sg = entropy best"
  proof
    fix sg assume "sg \<in> set (allGroups ?cons)"
    then have "sg \<in> set (scored_list frs)" unfolding a by (simp add: set_sort_by_score)
    then have k: "g_key sg \<in> set (group_keys frs)" and sg: "sg = scored_of (g_key sg) frs"
      using scored_entry by blast+
    from scored_of_first_root [OF k] sg
    show "\<exists>g first others pre best post.
                 (g_key sg, g) \<in> set (group_fragments frs)
               \<and> candidates g = first # others \<and> g_candidate sg = candidate first
               \<and> root_candidate g = Some best
               \<and> candidates g = pre @ best # post
               \<and> (\<forall>f \<in> set pre. entropy f < entropy best)
               \<and> (\<forall>f \<in> set post. entropy f \<le> entropy best)
               \<and> g_rootAgent sg = agentId best \<and> g_rootEntropy sg = entropy best"
      by simp
  qed
  have 4: "allGroups ?cons = top # rest" by simp
  have 5: "selectedCandidate ?cons = g_candidate top \<and> score ?cons = g_score top
         \<and> rootAgent ?cons = Some (g_rootAgent top)
         \<and> rootEntropy ?cons = Some (g_rootEntropy top)" by simp
  show ?thesis
    apply (rule exI [of _ ?cons], rule exI [of _ top], rule exI [of _ rest])
    apply (intro conjI c 1 2 3 4 scored_list_keys)
    apply (simp_all only: 5)
    done
qed

lemma scenario_first: "members ''x=1'' scenario_fragments = scenario_fragments"
  by code_simp

lemma scenario_root:
  "first_max scenario_fragments = Some (scenario_fragments ! 1)"
  by code_simp

lemma scenario_candidates_differ:
  "candidate (scenario_fragments ! 0) \<noteq> candidate (scenario_fragments ! 1)"
  by code_simp

lemma scenario_top:
  "case assemble_final_answer scenario_fragments ''g'' of
     Inl e \<Rightarrow> False
   | Inr cons \<Rightarrow> selectedCandidate cons = candidate (scenario_fragments ! 0)
                \<and> map g_key (allGroups cons) = [''x=1'']
                \<and> rootAgent cons = Some (agentId (scenario_fragments ! 1))"
  by code_simp

lemma scenario_has_group: "\<exists>f. f \<in> set scenario_fragments \<and> grouping_key (candidate f) \<noteq> []"
proof -
  have "scenario_fragments ! 0 \<in> set scenario_fragments" by code_simp
  moreover have "grouping_key (candidate (scenario_fragments ! 0)) \<noteq> []" by code_simp
  ultimately show ?thesis by (intro exI conjI)
qed

lemma selected_differs_from_root:
  "\<exists>cons g best. assemble_final_answer scenario_fragments ''g'' = Inr cons
     \<and> (''x=1'', g) \<in> set (group_fragments scenario_fragments)
     \<and> map g_key (allGroups cons) = [''x=1'']
     \<and> root_candidate g = Some best
     \<and> selectedCandidate cons \<noteq> candidate best"
proof -
  from scenario_top obtain cons where
    c: "assemble_final_answer scenario_fragments ''g'' = Inr cons"
    and s: "selectedCandidate cons = candidate (scenario_fragments ! 0)"
    and k: "map g_key (allGroups cons) = [''x=1'']"
    by (cases "assemble_final_answer scenario_fragments ''g''") simp_all
  let ?g = "group_of ''x=1'' scenario_fragments"
  have g: "(''x=1'', ?g) \<in> set (group_fragments scenario_fragments)"
    by (simp add: scenario_groups)
  have r: "root_candidate ?g = Some (scenario_fragments ! 1)"
    by (simp add: group_of_def scenario_first scenario_root)
  have d: "selectedCandidate cons \<noteq> candidate (scenario_fragments ! 1)"
    using s scenario_candidates_differ by simp
  show ?thesis
    by (rule exI [of _ cons], rule exI [of _ ?g], rule exI [of _ "scenario_fragments ! 1"])
       (intro conjI c g k r d)
qed

text \<open>
  Claim C3. When some fragment has a non-empty key, the assembler returns the scored
  groups sorted by descending score, groups of equal score in the order in which the
  grouping loop found them; the selected candidate is the candidate text of the first
  fragment of the top group, while the root agent and root entropy of every group are
  those of its first fragment of greatest entropy. The selected text and the text of the
  root candidate can differ, as they do in the scenario of two agents.
\<close>

theorem assemble_selection:
  assumes "\<exists>f. f \<in> set frs \<and> grouping_key (candidate f) \<noteq> []"
  shows "(\<exists>cons top rest.
           assemble_final_answer frs gh = Inr cons \<and> allGroups cons = top # rest
         \<and> sorted_wrt (\<lambda>x y. g_score y \<le> g_score x) (allGroups cons)
         \<and> map g_key (scored_list frs) = map fst (group_fragments frs)
         \<and> (\<forall>s. filter (\<lambda>x. g_score x = s) (allGroups cons)
                  = filter (\<lambda>x. g_score x = s) (scored_list frs))
         \<and> selectedCandidate cons = g_candidate top \<and> score cons = g_score top
         \<and> rootAgent cons = Some (g_rootAgent top)
         \<and> rootEntropy cons = Some (g_rootEntropy top)
         \<and> (\<forall>sg \<in> set (allGroups cons).
               \<exists>g first others pre best post.
                 (g_key sg, g) \<in> set (group_fragments frs)
               \<and> candidates g = first # others \<and> g_candidate sg = candidate first
               \<and> root_candidate g = Some best
               \<and> candidates g = pre @ best # post
               \<and> (\<forall>f \<in> set pre. entropy f < entropy best)
               \<and> (\<forall>f \<in> set post. entropy f \<le> entropy best)
               \<and> g_rootAgent sg = agentId best \<and> g_rootEntropy sg = entropy best))
       \<and> (\<exists>cons g best.
             assemble_final_answer scenario_fragments ''g'' = Inr cons
           \<and> (''x=1'', g) \<in> set (group_fragments scenario_fragments)
           \<and> map g_key (allGroups cons) = [''x=1'']
           \<and> root_candidate g = Some best
           \<and> selectedCandidate cons \<noteq> candidate best)"
  using assemble_selection_main [OF assms, of gh] selected_differs_from_root by (rule conjI)

theorem assemble_selection_witness:
  "(\<exists>f. f \<in> set scenario_fragments \<and> grouping_key (candidate f) \<noteq> [])
   \<and> (\<exists>cons top rest g first others pre best post.
         assemble_final_answer scenario_fragments ''g'' = Inr cons
       \<and> allGroups cons = top # rest \<and> top \<in> set (allGroups cons)
       \<and> selectedCandidate cons = g_candidate top
       \<and> (g_key top, g) \<in> set (group_fragments scenario_fragments)
       \<and> candidates g = first # others \<and> g_candidate top = candidate first
       \<and> root_candidate g = Some best
       \<and> candidates g = pre @ best # post
       \<and> g_rootAgent top = agentId best \<and> g_rootEntropy top = entropy best)"
proof -
  from assemble_selection [OF scenario_has_group, of "''g''", THEN conjunct1]
  obtain cons top rest where
    c: "assemble_final_answer scenario_fragments ''g'' = Inr cons"
    and a: "allGroups cons = top # rest"
    and sel: "selectedCandidate cons = g_candidate top"
    and each: "\<forall>sg \<in> set (allGroups cons).
               \<exists>g first others pre best post.
                 (g_key sg, g) \<in> set (group_fragments scenario_fragments)
               \<and> candidates g = first # others \<and> g_candidate sg = candidate first
               \<and> root_candidate g = Some best
               \<and> candidates g = pre @ best # post
               \<and> (\<forall>f \<in> set pre. entropy f < entropy best)
               \<and> (\<forall>f \<in> set post. entropy f \<le> entropy best)
               \<and> g_rootAgent sg = agentId best \<and> g_rootEntropy sg = entropy best"
    by (elim exE conjE)
  have t: "top \<in> set (allGroups cons)" by (simp add: a)
  from each [rule_format, OF t] obtain g first others pre best post where
    g: "(g_key top, g) \<in> set (group_fragments scenario_fragments)"
    and f: "candidates g = first # others" "g_candidate top = candidate first"
    and r: "root_candidate g = Some best" "candidates g = pre @ best # post"
       "g_rootAgent top = agentId best" "g_rootEntropy top = entropy best"
    by (elim exE conjE)
  have ex: "\<exists>cons top rest g first others pre best post.
         assemble_final_answer scenario_fragments ''g'' = Inr cons
       \<and> allGroups cons = top # rest \<and> top \<in> set (allGroups cons)
       \<and> selectedCandidate cons = g_candidate top
       \<and> (g_key top, g) \<in> set (group_fragments scenario_fragments)
       \<and> candidates g = first # others \<and> g_candidate top = candidate first
       \<and> root_candidate g = Some best
       \<and> candidates g = pre @ best # post
       \<and> g_rootAgent top = agentId best \<and> g_rootEntropy top = entropy best"
    apply (rule exI [of _ cons], rule exI [of _ top], rule exI [of _ rest], rule exI [of _ g])
    apply (rule exI [of _ first], rule exI [of _ others], rule exI [of _ pre])
    apply (rule exI [of _ best], rule exI [of _ post])
    apply (intro conjI c a t sel g f r)
    done
  show ?thesis using scenario_has_group ex by (rule conjI)
qed


text \<open>
  Claim C4, as amended. When no group is formed (the list is empty, or every fragment has
  an empty key) the assembler returns the degenerate result: score 0, no groups, and as
  selected candidate the fixed comment line, whose own key is empty.
\<close>

theorem assemble_no_groups:
  assumes "\<forall>f \<in> set frs. grouping_key (candidate f) = []"
  shows "assemble_final_answer frs gh =
           Inr \<lparr>genesis = gh,
                selectedCandidate = ''// No valid code candidates were generated by the agents.'',
                score = 0, agentCount = None, roundCount = None, avgEntropy = None,
                rootAgent = None, rootEntropy = None, allGroups = []\<rparr>
         \<and> grouping_key ''// No valid code candidates were generated by the agents.'' = []"
proof
  from assms have "group_keys frs = []" by (simp add: group_keys_Nil key_of_def)
  then show "assemble_final_answer frs gh =
           Inr \<lparr>genesis = gh,
                selectedCandidate = ''// No valid code candidates were generated by the agents.'',
                score = 0, agentCount = None, roundCount = None, avgEntropy = None,
                rootAgent = None, rootEntropy = None, allGroups = []\<rparr>"
    by (simp add: assemble_degenerate no_candidates_text_def)
next
  show "grouping_key ''// No valid code candidates were generated by the agents.'' = []"
    by code_simp
qed

theorem assemble_no_groups_witness:
  "grouping_key (candidate failed_fragment) = []
   \<and> assemble_final_answer [failed_fragment] ''g'' =
           Inr \<lparr>genesis = ''g'',
                selectedCandidate = ''// No valid code candidates were generated by the agents.'',
                score = 0, agentCount = None, roundCount = None, avgEntropy = None,
                rootAgent = None, rootEntropy = None, allGroups = []\<rparr>"
proof -
  have k: "grouping_key (candidate failed_fragment) = []" by code_simp
  then have h: "\<forall>f \<in> set [failed_fragment]. grouping_key (candidate f) = []" by simp
  have r: "assemble_final_answer [failed_fragment] ''g'' =
           Inr \<lparr>genesis = ''g'',
                selectedCandidate = ''// No valid code candidates were generated by the agents.'',
                score = 0, agentCount = None, roundCount = None, avgEntropy = None,
                rootAgent = None, rootEntropy = None, allGroups = []\<rparr>"
    using assemble_no_groups [OF h, of "''g''"] by (rule conjunct1)
  show ?thesis using k r by (rule conjI)
qed

text \<open>
  The selected candidate of the degenerate result is not the empty string.
\<close>

theorem assemble_no_groups_counterexample:
  "assemble_final_answer [] ''g'' =
     Inr \<lparr>genesis = ''g'',
          selectedCandidate = ''// No valid code candidates were generated by the agents.'',
          score = 0, agentCount = None, roundCount = None, avgEntropy = None,
          rootAgent = None, rootEntropy = None, allGroups = []\<rparr>
   \<and> ''// No valid code candidates were generated by the agents.'' \<noteq> ''''"
  by code_simp

section \<open>Properties of the grouping key\<close>

lemma replace_absent: "\<not> sublist old s \<Longrightarrow> replace old new s = s"
proof (induction s)
  case Nil
  show ?case by simp
next
  case (Cons c cs)
  have np: "\<not> prefix old (c # cs)"
  proof
    assume "prefix old (c # cs)"
    then have "sublist old (c # cs)" by (rule prefix_imp_sublist)
    with Cons.prems show False by simp
  qed
  have "\<not> sublist old cs"
  proof
    assume "sublist old cs"
    then have "sublist old (c # cs)" by (simp add: sublist_Cons_right)
    with Cons.prems show False by simp
  qed
  then have "replace old new cs = cs" by (rule Cons.IH)
  with np show ?case by simp
qed

lemma grouping_key_plain:
  "\<not> sublist [backslash, CHR ''s''] (code_text cand) \<Longrightarrow>
   grouping_key cand = strip (code_text cand)"
  by (simp add: grouping_key_def replace_absent)

lemma strip_decomp:
  assumes "\<exists>c \<in> set t. \<not> isspace c"
  shows "t = takeWhile isspace t @ strip t @ rev (takeWhile isspace (rev t))"
proof -
  let ?u = "dropWhile isspace t"
  have t: "t = takeWhile isspace t @ ?u" by simp
  have une: "\<exists>c \<in> set ?u. \<not> isspace c"
  proof -
    from assms obtain c where c: "c \<in> set t" "\<not> isspace c" by auto
    have "set t = set (takeWhile isspace t) \<union> set ?u"
      using set_append [of "takeWhile isspace t" ?u] by simp
    with c have "c \<in> set ?u" by (auto dest: set_takeWhileD)
    with c show ?thesis by auto
  qed
  have "rev t = rev ?u @ rev (takeWhile isspace t)"
    using rev_append [of "takeWhile isspace t" ?u] by simp
  then have "takeWhile isspace (rev t) = takeWhile isspace (rev ?u @ rev (takeWhile isspace t))"
    by simp
  also have "\<dots> = takeWhile isspace (rev ?u)"
  proof -
    from une obtain c where "c \<in> set (rev ?u)" "\<not> isspace c" by auto
    then show ?thesis by (rule takeWhile_append1)
  qed
  finally have tw: "takeWhile isspace (rev t) = takeWhile isspace (rev ?u)" .
  have "rev ?u = takeWhile isspace (rev ?u) @ dropWhile isspace (rev ?u)" by simp
  then have "rev (rev ?u) = rev (takeWhile isspace (rev ?u) @ dropWhile isspace (rev ?u))"
    by (rule arg_cong)
  then have "?u = rev (dropWhile isspace (rev ?u)) @ rev (takeWhile isspace (rev ?u))"
    by (simp only: rev_rev_ident rev_append)
  then have "?u = strip t @ rev (takeWhile isspace (rev t))"
    by (simp add: strip_def tw)
  then have "takeWhile isspace t @ ?u
             = takeWhile isspace t @ strip t @ rev (takeWhile isspace (rev t))"
    by (rule arg_cong)
  then show ?thesis by (simp only: takeWhile_dropWhile_id)
qed

lemma all_space_takeWhile: "\<forall>c \<in> set t. isspace c \<Longrightarrow> takeWhile isspace t = t"
  by (simp add: takeWhile_eq_all_conv)

lemma interior_has_text:
  assumes "differ_only_in_interior_spacing s t"
  shows "\<exists>c \<in> set s. \<not> isspace c"
proof (rule ccontr)
  assume "\<not> (\<exists>c \<in> set s. \<not> isspace c)"
  then have alls: "\<forall>c \<in> set s. isspace c" by simp
  then have "filter (\<lambda>c. \<not> isspace c) s = []" by (simp add: filter_empty_conv)
  with assms have "filter (\<lambda>c. \<not> isspace c) t = []"
    by (simp add: differ_only_in_interior_spacing_def)
  then have allt: "\<forall>c \<in> set t. isspace c" by (simp add: filter_empty_conv)
  from assms have "takeWhile isspace s = takeWhile isspace t"
    by (simp add: differ_only_in_interior_spacing_def)
  then have "s = t" using alls allt by (simp add: all_space_takeWhile)
  with assms show False by (simp add: differ_only_in_interior_spacing_def)
qed

lemma interior_sym:
  "differ_only_in_interior_spacing s t \<Longrightarrow> differ_only_in_interior_spacing t s"
  by (auto simp: differ_only_in_interior_spacing_def)

lemma strip_Nil_iff: "strip t = [] \<longleftrightarrow> (\<forall>c \<in> set t. isspace c)"
proof -
  have "strip t = [] \<longleftrightarrow> (\<forall>x \<in> set (dropWhile isspace t). isspace x)"
    by (simp add: strip_def dropWhile_eq_Nil_conv)
  also have "\<dots> \<longleftrightarrow> dropWhile isspace t = []"
  proof
    assume a: "\<forall>x \<in> set (dropWhile isspace t). isspace x"
    show "dropWhile isspace t = []"
    proof (cases "dropWhile isspace t")
      case Nil then show ?thesis .
    next
      case (Cons x xs)
      then have "\<not> isspace x" by (metis hd_dropWhile list.sel(1) list.distinct(1))
      with a Cons show ?thesis by simp
    qed
  qed (auto dest: set_dropWhileD)
  also have "\<dots> \<longleftrightarrow> (\<forall>c \<in> set t. isspace c)"
    by (simp add: dropWhile_eq_Nil_conv)
  finally show ?thesis .
qed

lemma interior_strip:
  assumes "differ_only_in_interior_spacing s t"
  shows "strip s \<noteq> strip t \<and> strip s \<noteq> [] \<and> strip t \<noteq> []"
proof -
  have hs: "\<exists>c \<in> set s. \<not> isspace c" using assms by (rule interior_has_text)
  have ht: "\<exists>c \<in> set t. \<not> isspace c" using interior_sym [OF assms] by (rule interior_has_text)
  from assms have l: "takeWhile isspace s = takeWhile isspace t"
    and r: "takeWhile isspace (rev s) = takeWhile isspace (rev t)" and ne: "s \<noteq> t"
    by (simp_all add: differ_only_in_interior_spacing_def)
  have "strip s \<noteq> strip t"
  proof
    assume eq: "strip s = strip t"
    have "s = takeWhile isspace s @ strip s @ rev (takeWhile isspace (rev s))"
      by (rule strip_decomp [OF hs])
    also have "\<dots> = takeWhile isspace t @ strip t @ rev (takeWhile isspace (rev t))"
      by (simp only: l r eq)
    also have "\<dots> = t"
      by (rule strip_decomp [OF ht, symmetric])
    finally have "s = t" .
    with ne show False by simp
  qed
  moreover have "strip s \<noteq> []" using hs by (simp add: strip_Nil_iff)
  moreover have "strip t \<noteq> []" using ht by (simp add: strip_Nil_iff)
  ultimately show ?thesis by simp
qed

lemma fragment_placement:
  assumes "f \<in> set frs" and "key_of f \<noteq> []"
  shows "(key_of f, group_of (key_of f) frs) \<in> set (group_fragments frs)
         \<and> f \<in> set (candidates (group_of (key_of f) frs))
         \<and> (\<forall>k g. (k, g) \<in> set (group_fragments frs) \<and> f \<in> set (candidates g)
                \<longrightarrow> k = key_of f)"
proof -
  have k: "key_of f \<in> set (group_keys frs)" using assms by (auto simp: set_group_keys)
  have 1: "(key_of f, group_of (key_of f) frs) \<in> set (group_fragments frs)"
    using k by (simp add: group_fragments_entry)
  have 2: "f \<in> set (candidates (group_of (key_of f) frs))"
    using assms by (simp add: group_of_def members_def)
  have 3: "k = key_of f" if "(k, g) \<in> set (group_fragments frs)" "f \<in> set (candidates g)"
    for k g
    using that by (auto simp: group_fragments_entry group_of_def members_def)
  show ?thesis using 1 2 3 by blast
qed

lemma distinct_groups:
  assumes "f1 \<in> set frs" "f2 \<in> set frs"
    and "key_of f1 \<noteq> []" "key_of f2 \<noteq> []" "key_of f1 \<noteq> key_of f2"
  shows "\<exists>g1 g2. (key_of f1, g1) \<in> set (group_fragments frs)
              \<and> (key_of f2, g2) \<in> set (group_fragments frs)
              \<and> f1 \<in> set (candidates g1) \<and> f2 \<in> set (candidates g2)
              \<and> f1 \<notin> set (candidates g2) \<and> f2 \<notin> set (candidates g1)"
proof -
  let ?g1 = "group_of (key_of f1) frs" and ?g2 = "group_of (key_of f2) frs"
  from fragment_placement [OF assms(1,3)] fragment_placement [OF assms(2,4)] assms(5)
  have "(key_of f1, ?g1) \<in> set (group_fragments frs)
              \<and> (key_of f2, ?g2) \<in> set (group_fragments frs)
              \<and> f1 \<in> set (candidates ?g1) \<and> f2 \<in> set (candidates ?g2)
              \<and> f1 \<notin> set (candidates ?g2) \<and> f2 \<notin> set (candidates ?g1)"
    by metis
  then show ?thesis by blast
qed

text \<open>
  What the grouping key keeps. The key is the stripped text that is left when the
  comment lines and every occurrence of backslash and \<^verbatim>\<open>s\<close> are removed. For two
  fragments whose remaining texts hold no backslash followed by \<^verbatim>\<open>s\<close> and differ only
  in interior spacing, each key is the remaining text without its leading and trailing
  whitespace, the keys differ, and the assembler puts the fragments into two groups.
\<close>

lemma plain_texts_distinct_groups:
  assumes "f1 \<in> set frs" and "f2 \<in> set frs"
    and "\<not> sublist [backslash, CHR ''s''] (code_text (candidate f1))"
    and "\<not> sublist [backslash, CHR ''s''] (code_text (candidate f2))"
    and "differ_only_in_interior_spacing (code_text (candidate f1)) (code_text (candidate f2))"
  shows "grouping_key cand =
           strip (replace [backslash, CHR ''s''] []
                    (join [newline]
                       (filter (\<lambda>line. \<not> prefix ''//'' (strip line)) (split_on newline cand))))
       \<and> grouping_key (candidate f1) = strip (code_text (candidate f1))
       \<and> grouping_key (candidate f2) = strip (code_text (candidate f2))
       \<and> code_text (candidate f1) =
            takeWhile isspace (code_text (candidate f1)) @ grouping_key (candidate f1)
            @ rev (takeWhile isspace (rev (code_text (candidate f1))))
       \<and> code_text (candidate f2) =
            takeWhile isspace (code_text (candidate f2)) @ grouping_key (candidate f2)
            @ rev (takeWhile isspace (rev (code_text (candidate f2))))
       \<and> grouping_key (candidate f1) \<noteq> grouping_key (candidate f2)
       \<and> (\<exists>g1 g2. (grouping_key (candidate f1), g1) \<in> set (group_fragments frs)
                 \<and> (grouping_key (candidate f2), g2) \<in> set (group_fragments frs)
                 \<and> f1 \<in> set (candidates g1) \<and> f2 \<in> set (candidates g2)
                 \<and> f1 \<notin> set (candidates g2) \<and> f2 \<notin> set (candidates g1))"
proof -
  let ?t1 = "code_text (candidate f1)" and ?t2 = "code_text (candidate f2)"
  have k1: "grouping_key (candidate f1) = strip ?t1" using assms(3) by (rule grouping_key_plain)
  have k2: "grouping_key (candidate f2) = strip ?t2" using assms(4) by (rule grouping_key_plain)
  from interior_strip [OF assms(5)] have
    d: "strip ?t1 \<noteq> strip ?t2" and n1: "strip ?t1 \<noteq> []" and n2: "strip ?t2 \<noteq> []"
    by simp_all
  have d1: "?t1 = takeWhile isspace ?t1 @ strip ?t1 @ rev (takeWhile isspace (rev ?t1))"
    using interior_has_text [OF assms(5)] by (rule strip_decomp)
  have d2: "?t2 = takeWhile isspace ?t2 @ strip ?t2 @ rev (takeWhile isspace (rev ?t2))"
    using interior_has_text [OF interior_sym [OF assms(5)]] by (rule strip_decomp)
  have 0: "grouping_key cand =
           strip (replace [backslash, CHR ''s''] []
                    (join [newline]
                       (filter (\<lambda>line. \<not> prefix ''//'' (strip line)) (split_on newline cand))))"
    by (simp add: grouping_key_def code_text_def is_comment_line_def)
  have g: "\<exists>g1 g2. (grouping_key (candidate f1), g1) \<in> set (group_fragments frs)
                 \<and> (grouping_key (candidate f2), g2) \<in> set (group_fragments frs)
                 \<and> f1 \<in> set (candidates g1) \<and> f2 \<in> set (candidates g2)
                 \<and> f1 \<notin> set (candidates g2) \<and> f2 \<notin> set (candidates g1)"
  proof -
    have a3: "key_of f1 \<noteq> []" using n1 k1 by (simp add: key_of_def)
    have a4: "key_of f2 \<noteq> []" using n2 k2 by (simp add: key_of_def)
    have a5: "key_of f1 \<noteq> key_of f2" using d k1 k2 by (simp add: key_of_def)
    from distinct_groups [OF assms(1,2) a3 a4 a5] show ?thesis by (simp only: key_of_def)
  qed
  show ?thesis
    apply (intro conjI 0 k1 k2 g)
      apply (simp only: k1) apply (rule d1)
     apply (simp only: k2) apply (rule d2)
    apply (simp only: k1 k2) apply (rule d)
    done
qed

lemma spaced_hyps:
  "spaced_fragments ! 0 \<in> set spaced_fragments"
  "spaced_fragments ! 1 \<in> set spaced_fragments"
  "\<not> sublist [backslash, CHR ''s''] (code_text (candidate (spaced_fragments ! 0)))"
  "\<not> sublist [backslash, CHR ''s''] (code_text (candidate (spaced_fragments ! 1)))"
  "differ_only_in_interior_spacing (code_text (candidate (spaced_fragments ! 0)))
     (code_text (candidate (spaced_fragments ! 1)))"
  by code_simp+


lemma plain_texts_distinct_groups_example:
  "spaced_fragments ! 0 \<in> set spaced_fragments
   \<and> spaced_fragments ! 1 \<in> set spaced_fragments
   \<and> \<not> sublist [backslash, CHR ''s''] (code_text (candidate (spaced_fragments ! 0)))
   \<and> \<not> sublist [backslash, CHR ''s''] (code_text (candidate (spaced_fragments ! 1)))
   \<and> differ_only_in_interior_spacing (code_text (candidate (spaced_fragments ! 0)))
         (code_text (candidate (spaced_fragments ! 1)))
   \<and> grouping_key (candidate (spaced_fragments ! 0))
       \<noteq> grouping_key (candidate (spaced_fragments ! 1))
   \<and> (\<exists>g1 g2. (grouping_key (candidate (spaced_fragments ! 0)), g1)
                   \<in> set (group_fragments spaced_fragments)
               \<and> (grouping_key (candidate (spaced_fragments ! 1)), g2)
                   \<in> set (group_fragments spaced_fragments)
               \<and> spaced_fragments ! 0 \<in> set (candidates g1)
               \<and> spaced_fragments ! 1 \<in> set (candidates g2)
               \<and> spaced_fragments ! 0 \<notin> set (candidates g2)
               \<and> spaced_fragments ! 1 \<notin> set (candidates g1))"
proof -
  note t = plain_texts_distinct_groups [OF spaced_hyps, of "[]"]
  have a: "grouping_key (candidate (spaced_fragments ! 0))
       \<noteq> grouping_key (candidate (spaced_fragments ! 1))"
    using t by (elim conjE)
  have b: "\<exists>g1 g2. (grouping_key (candidate (spaced_fragments ! 0)), g1)
                   \<in> set (group_fragments spaced_fragments)
               \<and> (grouping_key (candidate (spaced_fragments ! 1)), g2)
                   \<in> set (group_fragments spaced_fragments)
               \<and> spaced_fragments ! 0 \<in> set (candidates g1)
               \<and> spaced_fragments ! 1 \<in> set (candidates g2)
               \<and> spaced_fragments ! 0 \<notin> set (candidates g2)
               \<and> spaced_fragments ! 1 \<notin> set (candidates g1)"
    using t by (elim conjE)
  show ?thesis
    apply (rule conjI, rule spaced_hyps(1))
    apply (rule conjI, rule spaced_hyps(2))
    apply (rule conjI, rule spaced_hyps(3))
    apply (rule conjI, rule spaced_hyps(4))
    apply (rule conjI, rule spaced_hyps(5))
    apply (rule conjI, rule a)
    apply (rule b)
    done
qed

section \<open>Properties of the orchestration loop\<close>

declare str_nat.simps [simp del]

lemma digits_value_snoc: "digits_value (s @ [c]) = 10 * digits_value s + (of_char c - 48)"
  by (simp add: digits_value_def)

lemma digit_char_value: "d < 10 \<Longrightarrow> of_char (digit_char d) - 48 = d"
  by (simp add: digit_char_def)

lemma digits_value_str_nat: "digits_value (str_nat n) = n"
proof (induction n rule: str_nat.induct)
  case (1 n)
  show ?case
  proof (cases "n < 10")
    case True
    then have "str_nat n = [digit_char n]" by (simp add: str_nat.simps)
    then show ?thesis using True digits_value_snoc [of "[]" "digit_char n"]
      by (simp add: digit_char_value digits_value_def)
  next
    case False
    then have s: "str_nat n = str_nat (n div 10) @ [digit_char (n mod 10)]"
      by (subst str_nat.simps) simp
    have "digits_value (str_nat (n div 10)) = n div 10" using False by (rule "1.IH")
    then show ?thesis by (simp add: s digits_value_snoc digit_char_value)
  qed
qed

lemma str_nat_inj: "str_nat a = str_nat b \<Longrightarrow> a = b"
  by (metis digits_value_str_nat)

lemma agent_name_inj: "agent_name i = agent_name j \<Longrightarrow> i = j"
  by (simp add: agent_name_def str_nat_inj)

lemma calculate_entropy_total: "calculate_entropy s = Inr (entropy_value s)"
  by (simp add: entropy_value_def calculate_entropy_value)

lemma OLLAMA_MODELS_nonempty: "length OLLAMA_MODELS \<noteq> 0"
  by (simp add: OLLAMA_MODELS_def)

lemma get_next_model_slot:
  "get_next_model OLLAMA_MODELS (index + k) = Inr (slot_model index k, Suc (index + k))"
  using OLLAMA_MODELS_nonempty by (simp add: get_next_model_def slot_model_def)

lemma perform_total:
  "no_other_exception ev \<Longrightarrow>
   \<exists>res. perform_fractal_reasoning (requests_post ev k) a m p c r org ft d = Inr res"
proof -
  assume n: "no_other_exception ev"
  show ?thesis
  proof (cases "requests_post ev k m (full_prompt a m p c r ft d)")
    case (Response x) then show ?thesis by (simp add: perform_fractal_reasoning_def Let_def)
  next
    case (RequestException x) then show ?thesis by (simp add: perform_fractal_reasoning_def Let_def)
  next
    case (OtherException x) with n show ?thesis by (simp add: no_other_exception_def)
  qed
qed

lemma for_each_snoc:
  "for_each body st (xs @ [x]) =
     (case for_each body st xs of Inl e \<Rightarrow> Inl e | Inr st' \<Rightarrow> body st' x)"
  by (induction xs arbitrary: st) (auto split: sum.splits)

lemma loop_state_agent:
  "j < n \<Longrightarrow> st_agents (loop_state ev data index n r j) ! j
     = \<lparr>agent_id = agent_name j, agent_origin = origin_chain ev data j r\<rparr>"
  by (simp add: loop_state_def)

lemma loop_state_update:
  assumes "j < n"
  shows "(st_agents (loop_state ev data index n r j))
           [j := \<lparr>agent_id = agent_name j, agent_origin = origin_chain ev data j (Suc r)\<rparr>]
         = st_agents (loop_state ev data index n r (Suc j))"
proof (rule nth_equalityI)
  show "length ((st_agents (loop_state ev data index n r j))
           [j := \<lparr>agent_id = agent_name j, agent_origin = origin_chain ev data j (Suc r)\<rparr>])
        = length (st_agents (loop_state ev data index n r (Suc j)))"
    by (simp add: loop_state_def)
next
  fix i
  assume "i < length ((st_agents (loop_state ev data index n r j))
           [j := \<lparr>agent_id = agent_name j, agent_origin = origin_chain ev data j (Suc r)\<rparr>])"
  then have i: "i < n" by (simp add: loop_state_def)
  show "(st_agents (loop_state ev data index n r j))
           [j := \<lparr>agent_id = agent_name j, agent_origin = origin_chain ev data j (Suc r)\<rparr>] ! i
        = st_agents (loop_state ev data index n r (Suc j)) ! i"
  proof (cases "i = j")
    case True
    then show ?thesis using assms by (simp add: loop_state_def)
  next
    case False
    then have "(i < Suc j) = (i < j)" by auto
    then show ?thesis using i False by (simp add: loop_state_def)
  qed
qed

lemma slot_div_mod:
  assumes "j < (n::nat)"
  shows "(r * n + j) div n = r \<and> (r * n + j) mod n = j"
proof -
  from assms have n: "n \<noteq> 0" by simp
  have "(r * n + j) div n = r + j div n" using n by (rule div_mult_self3)
  moreover have "(r * n + j) mod n = j mod n" by (rule mod_mult_self3)
  ultimately show ?thesis using assms by simp
qed

lemma agent_step_loop_state:
  assumes ok: "no_other_exception ev" and j: "j < n"
  shows "agent_step ev data (genesis_of ev data) r (loop_state ev data index n r j) j
         = Inr (loop_state ev data index n r (Suc j))"
proof -
  let ?st = "loop_state ev data index n r j"
  let ?k = "r * n + j"
  have len: "length (st_fragments ?st) = ?k" by (simp add: loop_state_def)
  have idx: "st_model_index ?st = index + ?k" by (simp add: loop_state_def)
  have dm: "?k div n = r" "?k mod n = j" using slot_div_mod [OF j] by simp_all
  from perform_total [OF ok] obtain res where
    res: "perform_fractal_reasoning (requests_post ev ?k) (agent_name j) (slot_model index ?k)
            (prompt data) (codeContext data) r (origin_chain ev data j r)
            (fileType data) (reasoningDepth data) = Inr res"
    by blast
  then have cand: "slot_candidate ev data index n ?k = r_candidate res"
    using j by (simp add: slot_candidate_def dm)
  have frag: "slot_fragment ev data index n ?k =
      \<lparr>agentId = agent_name j, origin = origin_chain ev data j (Suc r), round_num = r,
       candidate = r_candidate res,
       entropy = entropy_value (origin_chain ev data j (Suc r)),
       model = slot_model index ?k\<rparr>"
    using j by (simp add: slot_fragment_def dm cand)
  have frs: "st_fragments ?st @ [slot_fragment ev data index n ?k]
             = st_fragments (loop_state ev data index n r (Suc j))"
    by (simp add: loop_state_def)
  have "agent_step ev data (genesis_of ev data) r ?st j
        = Inr \<lparr>st_agents = (st_agents ?st)
                  [j := \<lparr>agent_id = agent_name j,
                          agent_origin = origin_chain ev data j (Suc r)\<rparr>],
               st_model_index = Suc (index + ?k),
               st_fragments = st_fragments ?st @ [slot_fragment ev data index n ?k]\<rparr>"
    unfolding agent_step_def Let_def loop_state_agent [OF j] len idx get_next_model_slot
    by (simp add: res calculate_entropy_total frag)
  also have "\<dots> = Inr (loop_state ev data index n r (Suc j))"
    unfolding loop_state_update [OF j] frs by (simp add: loop_state_def)
  finally show ?thesis .
qed

lemma inner_loop_from:
  assumes ok: "no_other_exception ev"
  shows "j \<le> n \<Longrightarrow>
     for_each (agent_step ev data (genesis_of ev data) r) (loop_state ev data index n r j) [j ..< n]
       = Inr (loop_state ev data index n r n)"
proof (induction "n - j" arbitrary: j)
  case 0
  then have "j = n" by simp
  then show ?case by simp
next
  case (Suc d)
  then have j: "j < n" by simp
  then have up: "[j ..< n] = j # [Suc j ..< n]" by (simp add: upt_conv_Cons)
  have d: "d = n - Suc j" using Suc.hyps(2) by simp
  have "for_each (agent_step ev data (genesis_of ev data) r)
          (loop_state ev data index n r (Suc j)) [Suc j ..< n]
        = Inr (loop_state ev data index n r n)"
    using j by (intro Suc.hyps(1) d) simp
  then show ?case
    by (simp add: up agent_step_loop_state [OF ok j])
qed

lemma loop_state_round_end:
  "loop_state ev data index n r n = loop_state ev data index n (Suc r) 0"
  by (simp add: loop_state_def add.commute)

lemma length_loop_state_agents: "length (st_agents (loop_state ev data index n r j)) = n"
  by (simp add: loop_state_def)

lemma round_step_loop_state:
  assumes ok: "no_other_exception ev"
  shows "round_step ev data (genesis_of ev data) (loop_state ev data index n r 0) r
         = Inr (loop_state ev data index n (Suc r) 0)"
  using inner_loop_from [OF ok, of 0 n data r index]
  by (simp add: round_step_def length_loop_state_agents loop_state_round_end)

lemma initial_loop_state:
  "initial_state ev data index
   = loop_state ev data index (nat (agentCountParam data)) 0 0"
  by (simp add: initial_state_def loop_state_def init_agents_def)

lemma run_rounds_loop_state:
  assumes ok: "no_other_exception ev"
  shows "run_rounds ev data index m
         = Inr (loop_state ev data index (nat (agentCountParam data)) m 0)"
proof (induction m)
  case 0
  show ?case by (simp add: run_rounds_def initial_loop_state)
next
  case (Suc m)
  have "run_rounds ev data index (Suc m)
        = (case run_rounds ev data index m of
             Inl e \<Rightarrow> Inl e
           | Inr st \<Rightarrow> round_step ev data (genesis_of ev data) st m)"
    by (simp add: run_rounds_def for_each_snoc)
  then show ?case
    by (simp add: Suc.IH round_step_loop_state [OF ok])
qed

lemma orchestration_closed:
  "no_other_exception ev \<Longrightarrow>
   orchestration ev data index
   = Inr (loop_state ev data index (nat (agentCountParam data)) (nat (maxRounds data)) 0)"
  by (simp add: orchestration_def run_rounds_loop_state)

lemma loop_state_fragments:
  "st_fragments (loop_state ev data index n m 0) = map (slot_fragment ev data index n) [0 ..< m * n]"
  by (simp add: loop_state_def)

lemma slot_in_range:
  assumes "r < m" and "i < (n::nat)"
  shows "r * n + i < m * n"
proof -
  have "r * n + i < r * n + n" using assms(2) by simp
  also have "\<dots> = Suc r * n" by simp
  also have "\<dots> \<le> m * n" using assms(1) by (intro mult_le_mono1) simp
  finally show ?thesis .
qed

lemma loop_state_nth:
  assumes "r < m" and "i < n"
  shows "st_fragments (loop_state ev data index n m 0) ! (r * n + i)
         = slot_fragment ev data index n (r * n + i)"
  using slot_in_range [OF assms] by (simp add: loop_state_fragments)

lemma slot_fragment_fields:
  assumes "i < n"
  shows "agentId (slot_fragment ev data index n (r * n + i)) = agent_name i"
    and "round_num (slot_fragment ev data index n (r * n + i)) = r"
    and "origin (slot_fragment ev data index n (r * n + i)) = origin_chain ev data i (Suc r)"
  using slot_div_mod [OF assms, of r] by (simp_all add: slot_fragment_def)

lemma slot_pairs_distinct:
  "distinct (map (\<lambda>f. (agentId f, round_num f)) (map (slot_fragment ev data index n) [0 ..< k]))"
proof -
  have inj: "inj_on (\<lambda>k. (agent_name (k mod n), k div n)) (set [0 ..< k])"
  proof (rule inj_onI)
    fix a b
    assume "(agent_name (a mod n), a div n) = (agent_name (b mod n), b div n)"
    then have "a mod n = b mod n" and "a div n = b div n"
      by (auto dest: agent_name_inj)
    then show "a = b" by (metis div_mult_mod_eq)
  qed
  have "map (\<lambda>f. (agentId f, round_num f)) (map (slot_fragment ev data index n) [0 ..< k])
        = map (\<lambda>k. (agent_name (k mod n), k div n)) [0 ..< k]"
    by (simp add: slot_fragment_def comp_def)
  moreover have "distinct (map (\<lambda>k. (agent_name (k mod n), k div n)) [0 ..< k])"
    using inj by (simp add: distinct_map)
  ultimately show ?thesis by (simp only:)
qed

lemma agent_step_appends:
  "agent_step ev data g r st0 i = Inr st1 \<Longrightarrow> \<exists>f. st_fragments st1 = st_fragments st0 @ [f]"
  by (auto simp: agent_step_def Let_def split: sum.splits prod.splits)

text \<open>
  Claim C8, as amended. When no call of the service raises anything but a
  \<^verbatim>\<open>RequestException\<close>, the loop ends with exactly \<open>agentCount * maxRounds\<close> fragments (none for a negative
  parameter); the fragment at position \<open>r * agentCount + i\<close> belongs to agent \<open>i\<close> and
  round \<open>r\<close>, so the order is round-major with the agents in creation order, and no two
  fragments share the pair of agent id and round. The list after the first \<open>m\<close> rounds is
  a prefix of the final list, and every step of the inner loop only appends one fragment.
\<close>

theorem orchestration_fragments:
  assumes "no_other_exception ev"
  shows "\<exists>st. orchestration ev data index = Inr st
     \<and> length (st_fragments st) = nat (agentCountParam data) * nat (maxRounds data)
     \<and> (\<forall>r < nat (maxRounds data). \<forall>i < nat (agentCountParam data).
           agentId (st_fragments st ! (r * nat (agentCountParam data) + i)) = agent_name i
         \<and> round_num (st_fragments st ! (r * nat (agentCountParam data) + i)) = r)
     \<and> distinct (map (\<lambda>f. (agentId f, round_num f)) (st_fragments st))
     \<and> (\<forall>m \<le> nat (maxRounds data).
           \<exists>st'. run_rounds ev data index m = Inr st'
               \<and> st_fragments st' = take (m * nat (agentCountParam data)) (st_fragments st))
     \<and> (\<forall>g r st0 i st1. agent_step ev data g r st0 i = Inr st1
           \<longrightarrow> (\<exists>f. st_fragments st1 = st_fragments st0 @ [f]))"
proof -
  let ?n = "nat (agentCountParam data)" and ?m = "nat (maxRounds data)"
  let ?st = "loop_state ev data index ?n ?m 0"
  have 1: "orchestration ev data index = Inr ?st" using assms by (rule orchestration_closed)
  have 2: "length (st_fragments ?st) = ?n * ?m" by (simp add: loop_state_fragments mult.commute)
  have 3: "\<forall>r < ?m. \<forall>i < ?n.
           agentId (st_fragments ?st ! (r * ?n + i)) = agent_name i
         \<and> round_num (st_fragments ?st ! (r * ?n + i)) = r"
    by (simp add: loop_state_nth slot_fragment_fields)
  have 4: "distinct (map (\<lambda>f. (agentId f, round_num f)) (st_fragments ?st))"
    unfolding loop_state_fragments by (rule slot_pairs_distinct)
  have 5: "\<forall>m \<le> ?m. \<exists>st'. run_rounds ev data index m = Inr st'
               \<and> st_fragments st' = take (m * ?n) (st_fragments ?st)"
  proof (intro allI impI)
    fix m assume m: "m \<le> ?m"
    then have "m * ?n \<le> ?m * ?n" by (rule mult_le_mono1)
    then have "take (m * ?n) [0 ..< ?m * ?n] = [0 ..< m * ?n]" by simp
    then have "st_fragments (loop_state ev data index ?n m 0)
               = take (m * ?n) (st_fragments ?st)"
      by (simp add: loop_state_fragments take_map)
    then show "\<exists>st'. run_rounds ev data index m = Inr st'
               \<and> st_fragments st' = take (m * ?n) (st_fragments ?st)"
      using run_rounds_loop_state [OF assms, of data index m] by simp
  qed
  have 6: "\<forall>g r st0 i st1. agent_step ev data g r st0 i = Inr st1
           \<longrightarrow> (\<exists>f. st_fragments st1 = st_fragments st0 @ [f])"
    using agent_step_appends by blast
  show ?thesis
    by (rule exI [of _ ?st]) (intro conjI 1 2 3 4 5 6)
qed

lemma example_no_other: "no_other_exception example_env"
  by (simp add: no_other_exception_def example_env_def)

lemma example_counts:
  "nat (agentCountParam example_request) = 3" "nat (maxRounds example_request) = 2"
  by (simp_all add: example_request_def)

lemma agent_name_1: "agent_name (Suc 0) = ''agent-1''"
  by code_simp

theorem orchestration_fragments_witness:
  "no_other_exception example_env
   \<and> (\<exists>st st'. orchestration example_env example_request 0 = Inr st
         \<and> length (st_fragments st) = 6
         \<and> agentId (st_fragments st ! 4) = ''agent-1''
         \<and> round_num (st_fragments st ! 4) = 1
         \<and> run_rounds example_env example_request 0 1 = Inr st'
         \<and> st_fragments st' = take 3 (st_fragments st))"
proof -
  from orchestration_fragments [OF example_no_other, of example_request 0]
  obtain st where
    o: "orchestration example_env example_request 0 = Inr st"
    and l: "length (st_fragments st)
            = nat (agentCountParam example_request) * nat (maxRounds example_request)"
    and f: "\<forall>r < nat (maxRounds example_request). \<forall>i < nat (agentCountParam example_request).
           agentId (st_fragments st ! (r * nat (agentCountParam example_request) + i))
             = agent_name i
         \<and> round_num (st_fragments st ! (r * nat (agentCountParam example_request) + i)) = r"
    and p: "\<forall>m \<le> nat (maxRounds example_request).
           \<exists>st'. run_rounds example_env example_request 0 m = Inr st'
               \<and> st_fragments st'
                   = take (m * nat (agentCountParam example_request)) (st_fragments st)"
    by (elim exE conjE)
  have l6: "length (st_fragments st) = 6" using l by (simp add: example_counts)
  from f [rule_format, of 1 1]
  have f4: "agentId (st_fragments st ! 4) = ''agent-1''" "round_num (st_fragments st ! 4) = 1"
    by (simp_all add: example_counts agent_name_1)
  from p [rule_format, of 1] obtain st' where
    r: "run_rounds example_env example_request 0 1 = Inr st'"
    and t: "st_fragments st' = take 3 (st_fragments st)"
    by (auto simp: example_counts)
  have "\<exists>st st'. orchestration example_env example_request 0 = Inr st
         \<and> length (st_fragments st) = 6
         \<and> agentId (st_fragments st ! 4) = ''agent-1''
         \<and> round_num (st_fragments st ! 4) = 1
         \<and> run_rounds example_env example_request 0 1 = Inr st'
         \<and> st_fragments st' = take 3 (st_fragments st)"
    by (rule exI [of _ st], rule exI [of _ st']) (intro conjI o l6 f4 r t)
  with example_no_other show ?thesis by (rule conjI)
qed

subsection \<open>Runs that an uncaught exception ends\<close>

lemma agent_step_uncaught:
  assumes "\<And>m p. requests_post ev (length (st_fragments st)) m p = OtherException msg"
  shows "agent_step ev data g r st i = Inl (Uncaught msg)"
  using OLLAMA_MODELS_nonempty
  by (simp add: agent_step_def Let_def get_next_model_def perform_fractal_reasoning_def assms)

lemma aborting_first_round:
  "round_step aborting_env single_request g (initial_state aborting_env single_request 0) 0
   = Inl (Uncaught ''AttributeError'')"
proof -
  have len: "length (st_agents (initial_state aborting_env single_request 0)) = 1"
    by (simp add: initial_state_def init_agents_def single_request_def)
  have "agent_step aborting_env single_request g 0
          (initial_state aborting_env single_request 0) 0 = Inl (Uncaught ''AttributeError'')"
    by (rule agent_step_uncaught) (simp add: aborting_env_def)
  then show ?thesis by (simp add: round_step_def len)
qed

lemma aborting_run:
  "run_rounds aborting_env single_request 0 1 = Inl (Uncaught ''AttributeError'')"
  by (simp add: run_rounds_def aborting_first_round)

lemma single_counts:
  "nat (agentCountParam single_request) = 1" "nat (maxRounds single_request) = 1"
  by (simp_all add: single_request_def)

lemma aborting_orchestration:
  "orchestration aborting_env single_request 0 = Inl (Uncaught ''AttributeError'')"
  by (simp only: orchestration_def single_counts aborting_run)


text \<open>
  A run of one agent and one round whose call raises an \<^verbatim>\<open>AttributeError\<close> ends in the
  error response: the loop produces no fragment list, not the one fragment of
  \<open>agentCount * maxRounds\<close>.
\<close>

theorem orchestration_fragments_counterexample:
  "nat (agentCountParam single_request) * nat (maxRounds single_request) = 1
   \<and> orchestration aborting_env single_request 0 = Inl (Uncaught ''AttributeError'')"
  by (simp add: single_counts aborting_orchestration)

subsection \<open>The chain of origins\<close>







subsection \<open>Failed generation calls\<close>

lemma slot_candidate_failed:
  assumes "i < n"
    and "requests_post ev (r * n + i) (slot_model index (r * n + i))
           (full_prompt (agent_name i) (slot_model index (r * n + i)) (prompt data)
              (codeContext data) r (fileType data) (reasoningDepth data))
         = RequestException e"
  shows "candidate (slot_fragment ev data index n (r * n + i))
         = ''// Agent '' @ agent_name i @ '' failed to generate a response.'' @ [newline]
           @ ''// Error: Ollama connection error for agent '' @ agent_name i @ '': '' @ e"
proof -
  have dm: "(r * n + i) div n = r" "(r * n + i) mod n = i"
    using slot_div_mod [OF assms(1), of r] by simp_all
  have "slot_candidate ev data index n (r * n + i)
        = ''// Agent '' @ agent_name i @ '' failed to generate a response.'' @ [newline]
          @ ''// Error: Ollama connection error for agent '' @ agent_name i @ '': '' @ e"
    unfolding slot_candidate_def dm perform_fractal_reasoning_def
    by (simp only: assms(2) http_outcome.case Let_def sum.case reasoning_result.simps)
       simp
  then show ?thesis by (simp add: slot_fragment_def)
qed

lemma orchestrate_succeeds:
  assumes "no_other_exception ev"
  shows "\<exists>cons. orchestrate ev data index
           = Inr (cons, index + nat (maxRounds data) * nat (agentCountParam data))"
proof -
  let ?st = "loop_state ev data index (nat (agentCountParam data)) (nat (maxRounds data)) 0"
  from allGroups_closed [of "st_fragments ?st" "genesis_of ev data"] obtain cons where
    "assemble_final_answer (st_fragments ?st) (genesis_of ev data) = Inr cons" by (elim exE conjE)
  then have "orchestrate ev data index = Inr (cons, st_model_index ?st)"
    by (simp add: orchestrate_def orchestration_closed [OF assms])
  then show ?thesis by (simp add: loop_state_def) 
qed

text \<open>
  Claim C5, as amended. When no call of the service raises anything but a
  \<^verbatim>\<open>RequestException\<close>, the run completes with all its fragments and \<^verbatim>\<open>orchestrate\<close>
  returns the success response; the fragment of every call that raised a
  \<^verbatim>\<open>RequestException\<close> carries the agent, the round and the placeholder candidate made
  of the agent id and the message of the exception.
\<close>

theorem generation_failure_isolated:
  assumes "no_other_exception ev"
  shows "\<exists>st cons index'.
           orchestration ev data index = Inr st
         \<and> orchestrate ev data index = Inr (cons, index')
         \<and> length (st_fragments st) = nat (agentCountParam data) * nat (maxRounds data)
         \<and> (\<forall>r < nat (maxRounds data). \<forall>i < nat (agentCountParam data). \<forall>e.
               requests_post ev (r * nat (agentCountParam data) + i)
                 (slot_model index (r * nat (agentCountParam data) + i))
                 (full_prompt (agent_name i)
                    (slot_model index (r * nat (agentCountParam data) + i)) (prompt data)
                    (codeContext data) r (fileType data) (reasoningDepth data))
               = RequestException e
               \<longrightarrow> agentId (st_fragments st ! (r * nat (agentCountParam data) + i)) = agent_name i
                 \<and> round_num (st_fragments st ! (r * nat (agentCountParam data) + i)) = r
                 \<and> candidate (st_fragments st ! (r * nat (agentCountParam data) + i))
                     = ''// Agent '' @ agent_name i @ '' failed to generate a response.''
                       @ [newline] @ ''// Error: Ollama connection error for agent ''
                       @ agent_name i @ '': '' @ e)"
proof -
  let ?n = "nat (agentCountParam data)" and ?m = "nat (maxRounds data)"
  let ?st = "loop_state ev data index ?n ?m 0"
  have 1: "orchestration ev data index = Inr ?st" using assms by (rule orchestration_closed)
  from orchestrate_succeeds [OF assms, of data index] obtain cons where
    2: "orchestrate ev data index = Inr (cons, index + ?m * ?n)" by (elim exE)
  have 3: "length (st_fragments ?st) = ?n * ?m" by (simp add: loop_state_fragments mult.commute)
  have 4: "\<forall>r < ?m. \<forall>i < ?n. \<forall>e.
               requests_post ev (r * ?n + i) (slot_model index (r * ?n + i))
                 (full_prompt (agent_name i) (slot_model index (r * ?n + i)) (prompt data)
                    (codeContext data) r (fileType data) (reasoningDepth data))
               = RequestException e
               \<longrightarrow> agentId (st_fragments ?st ! (r * ?n + i)) = agent_name i
                 \<and> round_num (st_fragments ?st ! (r * ?n + i)) = r
                 \<and> candidate (st_fragments ?st ! (r * ?n + i))
                     = ''// Agent '' @ agent_name i @ '' failed to generate a response.''
                       @ [newline] @ ''// Error: Ollama connection error for agent ''
                       @ agent_name i @ '': '' @ e"
  proof (intro allI impI)
    fix r i e
    assume r: "r < ?m" and i: "i < ?n"
      and f: "requests_post ev (r * ?n + i) (slot_model index (r * ?n + i))
                 (full_prompt (agent_name i) (slot_model index (r * ?n + i)) (prompt data)
                    (codeContext data) r (fileType data) (reasoningDepth data))
               = RequestException e"
    show "agentId (st_fragments ?st ! (r * ?n + i)) = agent_name i
                 \<and> round_num (st_fragments ?st ! (r * ?n + i)) = r
                 \<and> candidate (st_fragments ?st ! (r * ?n + i))
                     = ''// Agent '' @ agent_name i @ '' failed to generate a response.''
                       @ [newline] @ ''// Error: Ollama connection error for agent ''
                       @ agent_name i @ '': '' @ e"
      unfolding loop_state_nth [OF r i]
      by (intro conjI slot_fragment_fields [OF i] slot_candidate_failed [OF i f])
  qed
  show ?thesis
    by (rule exI [of _ ?st], rule exI [of _ cons], rule exI [of _ "index + ?m * ?n"])
       (intro conjI 1 2 3 4)
qed

theorem generation_failure_isolated_witness:
  "no_other_exception example_env
   \<and> (\<exists>st cons index'.
         orchestration example_env example_request 0 = Inr st
       \<and> orchestrate example_env example_request 0 = Inr (cons, index')
       \<and> length (st_fragments st) = 6
       \<and> agentId (st_fragments st ! Suc 0) = ''agent-1''
       \<and> round_num (st_fragments st ! Suc 0) = 0
       \<and> candidate (st_fragments st ! Suc 0)
           = ''// Agent agent-1 failed to generate a response.'' @ [newline]
             @ ''// Error: Ollama connection error for agent agent-1: timed out'')"
proof -
  from generation_failure_isolated [OF example_no_other, of example_request 0]
  obtain st cons index' where
    o: "orchestration example_env example_request 0 = Inr st"
    and h: "orchestrate example_env example_request 0 = Inr (cons, index')"
    and l: "length (st_fragments st)
            = nat (agentCountParam example_request) * nat (maxRounds example_request)"
    and f: "\<forall>r < nat (maxRounds example_request). \<forall>i < nat (agentCountParam example_request).
            \<forall>e.
               requests_post example_env (r * nat (agentCountParam example_request) + i)
                 (slot_model 0 (r * nat (agentCountParam example_request) + i))
                 (full_prompt (agent_name i)
                    (slot_model 0 (r * nat (agentCountParam example_request) + i))
                    (prompt example_request) (codeContext example_request) r
                    (fileType example_request) (reasoningDepth example_request))
               = RequestException e
               \<longrightarrow> agentId (st_fragments st ! (r * nat (agentCountParam example_request) + i))
                     = agent_name i
                 \<and> round_num (st_fragments st ! (r * nat (agentCountParam example_request) + i))
                     = r
                 \<and> candidate (st_fragments st ! (r * nat (agentCountParam example_request) + i))
                     = ''// Agent '' @ agent_name i @ '' failed to generate a response.''
                       @ [newline] @ ''// Error: Ollama connection error for agent ''
                       @ agent_name i @ '': '' @ e"
    by (elim exE conjE)
  have l6: "length (st_fragments st) = 6" using l by (simp add: example_counts)
  have r: "0 < nat (maxRounds example_request)" by (simp add: example_counts)
  have i: "Suc 0 < nat (agentCountParam example_request)" by (simp add: example_counts)
  have k: "0 * nat (agentCountParam example_request) + Suc 0 = Suc 0" by simp
  have fail: "requests_post example_env (0 * nat (agentCountParam example_request) + Suc 0)
                 (slot_model 0 (0 * nat (agentCountParam example_request) + Suc 0))
                 (full_prompt (agent_name (Suc 0))
                    (slot_model 0 (0 * nat (agentCountParam example_request) + Suc 0))
                    (prompt example_request) (codeContext example_request) 0
                    (fileType example_request) (reasoningDepth example_request))
               = RequestException ''timed out''"
    by (simp add: example_env_def)
  from f [rule_format, OF r i fail]
  have a: "agentId (st_fragments st ! Suc 0) = ''agent-1''"
    and b: "round_num (st_fragments st ! Suc 0) = 0"
    and c: "candidate (st_fragments st ! Suc 0)
           = ''// Agent agent-1 failed to generate a response.'' @ [newline]
             @ ''// Error: Ollama connection error for agent agent-1: timed out''"
    by (simp_all add: agent_name_1)
  have "\<exists>st cons index'.
         orchestration example_env example_request 0 = Inr st
       \<and> orchestrate example_env example_request 0 = Inr (cons, index')
       \<and> length (st_fragments st) = 6
       \<and> agentId (st_fragments st ! Suc 0) = ''agent-1''
       \<and> round_num (st_fragments st ! Suc 0) = 0
       \<and> candidate (st_fragments st ! Suc 0)
           = ''// Agent agent-1 failed to generate a response.'' @ [newline]
             @ ''// Error: Ollama connection error for agent agent-1: timed out''"
    by (rule exI [of _ st], rule exI [of _ cons], rule exI [of _ index'])
       (intro conjI o h l6 a b c)
  with example_no_other show ?thesis by (rule conjI)
qed

text \<open>
  A generation call that fails with an exception that is no \<^verbatim>\<open>RequestException\<close> reaches
  the caller as the error response.
\<close>

theorem generation_failure_isolated_counterexample:
  "requests_post aborting_env 0 ''gemma:latest'' ''p'' = OtherException ''AttributeError''
   \<and> orchestrate aborting_env single_request 0 = Inl (Uncaught ''AttributeError'')"
  by (simp add: orchestrate_def aborting_orchestration) (simp add: aborting_env_def)

end
